theory Spec2Isabelle
  imports Main "HOL-Library.Word" "HOL-Library.Signed_Division"
begin

unbundle bit_operations_syntax

section \<open>Go values and run-time behaviour\<close>

text \<open>
  Byte slices are lists of 8-bit words; a nil slice and an empty slice are both \<open>[]\<close>.
  A Go function either returns or panics; the panic carries its message.
\<close>

type_synonym byte = "8 word"
type_synonym bytes = "byte list"

datatype 'a go = Panic string | Return 'a

definition go_bind :: "'a go \<Rightarrow> ('a \<Rightarrow> 'b go) \<Rightarrow> 'b go" where
  "go_bind m f = (case m of Panic s \<Rightarrow> Panic s | Return x \<Rightarrow> f x)"

text \<open>The slice expression \<open>s[lo:hi]\<close> and the index expression \<open>s[i]\<close>, with their bounds checks.\<close>

definition go_slice :: "'a list \<Rightarrow> nat \<Rightarrow> nat \<Rightarrow> 'a list go" where
  "go_slice s lo hi =
     (if lo \<le> hi \<and> hi \<le> length s then Return (take (hi - lo) (drop lo s))
      else Panic ''slice bounds out of range'')"

definition go_index :: "'a list \<Rightarrow> nat \<Rightarrow> 'a go" where
  "go_index s i = (if i < length s then Return (s ! i) else Panic ''index out of range'')"

text \<open>The builtin \<open>copy(dst, src)\<close>: the first \<open>min (len dst) (len src)\<close> elements are overwritten.\<close>

definition go_copy :: "'a list \<Rightarrow> 'a list \<Rightarrow> 'a list" where
  "go_copy dst src = take (length dst) src @ drop (length src) dst"

text \<open>Go's \<open>int\<close> on a 64-bit platform: results wrap to 64-bit two's complement.\<close>

definition go_int :: "int \<Rightarrow> int" where
  "go_int x = signed_take_bit 63 x"

text \<open>\<open>encoding/binary\<close>, big endian.\<close>

definition PutUint64 :: "64 word \<Rightarrow> bytes" where
  "PutUint64 v =
     [ucast (drop_bit 56 v), ucast (drop_bit 48 v), ucast (drop_bit 40 v), ucast (drop_bit 32 v),
      ucast (drop_bit 24 v), ucast (drop_bit 16 v), ucast (drop_bit 8 v), ucast v]"

definition PutUint32 :: "32 word \<Rightarrow> bytes" where
  "PutUint32 v = [ucast (drop_bit 24 v), ucast (drop_bit 16 v), ucast (drop_bit 8 v), ucast v]"

definition Uint32 :: "bytes \<Rightarrow> 32 word go" where
  "Uint32 b =
     go_bind (go_index b 3) (\<lambda>b3. go_bind (go_index b 2) (\<lambda>b2.
     go_bind (go_index b 1) (\<lambda>b1. go_bind (go_index b 0) (\<lambda>b0.
       Return (ucast b3 OR push_bit 8 (ucast b2) OR push_bit 16 (ucast b1)
               OR push_bit 24 (ucast b0))))))"

section \<open>The imported primitives\<close>

text \<open>
  SHA-512, Ed25519 and the NaCl secretbox come from imported packages. The construction is
  parametrised over them: \<open>ed25519_Sign P privateKey message\<close>,
  \<open>ed25519_Verify P publicKey message sig\<close>, \<open>secretbox_Seal P message nonce key\<close> and
  \<open>secretbox_Open P box nonce key\<close> (\<open>None\<close> when the box does not authenticate).
\<close>

record prims =
  sha512_Sum512 :: "bytes \<Rightarrow> bytes"
  ed25519_Sign :: "bytes \<Rightarrow> bytes \<Rightarrow> bytes"
  ed25519_Verify :: "bytes \<Rightarrow> bytes \<Rightarrow> bytes \<Rightarrow> bool"
  secretbox_Seal :: "bytes \<Rightarrow> bytes \<Rightarrow> bytes \<Rightarrow> bytes"
  secretbox_Open :: "bytes \<Rightarrow> bytes \<Rightarrow> bytes \<Rightarrow> bytes option"

text \<open>
  What the packages guarantee: a hash is a \<open>[64]byte\<close>, a signature is a \<open>[64]byte\<close>, a box is
  \<open>secretbox.Overhead = 16\<close> bytes longer than its message, and a box opens under the nonce and
  key that sealed it.
\<close>

definition sizes_ok :: "prims \<Rightarrow> bool" where
  "sizes_ok P \<longleftrightarrow>
     (\<forall>m. length (sha512_Sum512 P m) = 64) \<and>
     (\<forall>sk m. length (ed25519_Sign P sk m) = 64) \<and>
     (\<forall>m n k. length (secretbox_Seal P m n k) = length m + 16)"

definition box_ok :: "prims \<Rightarrow> bool" where
  "box_ok P \<longleftrightarrow> (\<forall>m n k. secretbox_Open P (secretbox_Seal P m n k) n k = Some m)"

text \<open>\<open>verifyKey\<close> is the public key of \<open>signKey\<close>: it accepts every signature \<open>signKey\<close> makes.\<close>

definition keypair :: "prims \<Rightarrow> bytes \<Rightarrow> bytes \<Rightarrow> bool" where
  "keypair P signKey verifyKey \<longleftrightarrow>
     (\<forall>m. ed25519_Verify P verifyKey m (ed25519_Sign P signKey m))"

text \<open>
  A small instance that meets these guarantees: the hash and the signature are 64-byte
  paddings, a signature verifies when it is the one the first 32 key bytes produce, and a box is
  its message behind 16 bytes taken from key and nonce.
\<close>

definition pad64 :: "bytes \<Rightarrow> bytes" where
  "pad64 m = take 64 (m @ replicate 64 0)"

definition test_tag :: "bytes \<Rightarrow> bytes \<Rightarrow> bytes" where
  "test_tag n k = take 16 (k @ n @ replicate 16 0)"

definition test_prims :: prims where
  "test_prims =
     \<lparr> sha512_Sum512 = pad64,
       ed25519_Sign = (\<lambda>sk m. pad64 (take 32 sk @ m)),
       ed25519_Verify = (\<lambda>pk m s. s = pad64 (take 32 pk @ m)),
       secretbox_Seal = (\<lambda>m n k. test_tag n k @ m),
       secretbox_Open = (\<lambda>c n k. if 16 \<le> length c \<and> take 16 c = test_tag n k
                                 then Some (drop 16 c) else None) \<rparr>"

text \<open>
  A second instance, with the key layout of the \<open>ed25519\<close> package: a private key is a 32-byte
  seed followed by the 32-byte public key, and the public key is derived from the seed. Signing
  uses the key derived from the seed and the public key stored in the private key; a signature
  verifies under a key when both are that key. The all-zero private key does not have this
  form, its stored public key not being the one its seed gives, as in the package itself.
\<close>

definition derive_pk :: "bytes \<Rightarrow> bytes" where
  "derive_pk seed = map (\<lambda>b. b + 1) (take 32 seed)"

definition ed_prims :: prims where
  "ed_prims =
     \<lparr> sha512_Sum512 = pad64,
       ed25519_Sign = (\<lambda>sk m. pad64 (take 16 (derive_pk sk) @ take 16 (drop 32 sk) @ m)),
       ed25519_Verify = (\<lambda>pk m s. s = pad64 (take 16 pk @ take 16 pk @ m)),
       secretbox_Seal = (\<lambda>m n k. test_tag n k @ m),
       secretbox_Open = (\<lambda>c n k. if 16 \<le> length c \<and> take 16 c = test_tag n k
                                 then Some (drop 16 c) else None) \<rparr>"

section \<open>Constants and errors\<close>

definition AttachmentNonceSize :: nat where "AttachmentNonceSize = 16"
definition SecretboxKeySize :: nat where "SecretboxKeySize = 32"
definition SecretboxNonceSize :: nat where "SecretboxNonceSize = 24"
definition SignatureSize :: nat where "SignatureSize = 64"
definition Overhead :: nat where "Overhead = 16"
definition PlaintextChunkLength :: nat where "PlaintextChunkLength = 1048576"
definition Bin32Tag :: byte where "Bin32Tag = 0xc6"
definition Bin32Overhead :: nat where "Bin32Overhead = 5"
definition MaxUint32 :: nat where "MaxUint32 = 4294967295"

definition PacketLength :: nat where
  "PacketLength = PlaintextChunkLength + SignatureSize + Overhead + Bin32Overhead"

definition SignaturePrefix :: string where
  "SignaturePrefix = ''keybase chat attachment'' @ [CHR 0x00]"

definition bytes_of :: "string \<Rightarrow> bytes" where
  "bytes_of s = map (\<lambda>c. of_nat (of_char c)) s"

datatype AttachmentCryptoErrorType =
  BadSecretbox | ShortSignature | BadSignature
  | ShortMessagePackObject | WrongMessagePackFormat | WrongMessagePackLength

text \<open>
  The message of an error is \<open>fmt.Sprintf(message, args...)\<close>; it is kept as the format
  string with its arguments.
\<close>

datatype AttachmentCryptoError =
  AttachmentCryptoError (Type: AttachmentCryptoErrorType) (Message: "string \<times> int list")

definition NewAttachmentError ::
  "AttachmentCryptoErrorType \<Rightarrow> string \<Rightarrow> int list \<Rightarrow> AttachmentCryptoError" where
  "NewAttachmentError errorType message args = AttachmentCryptoError errorType (message, args)"

section \<open>Single packet encoding and decoding\<close>

definition makeChunkNonce :: "bytes \<Rightarrow> 64 word \<Rightarrow> bytes" where
  "makeChunkNonce attachmentNonce chunkNum =
     (let ret0 = replicate SecretboxNonceSize 0;
          ret1 = go_copy (take 16 ret0) attachmentNonce @ drop 16 ret0;
          chunkNumBytes = PutUint64 chunkNum;
          ret2 = take 16 ret1 @ go_copy (take 8 (drop 16 ret1)) chunkNumBytes @ drop 24 ret1
      in ret2)"

definition makeSignatureInput :: "prims \<Rightarrow> bytes \<Rightarrow> bytes \<Rightarrow> bytes \<Rightarrow> bytes" where
  "makeSignatureInput P plaintext encKey chunkNonce =
     (let chunkHash = sha512_Sum512 P plaintext;
          ret = [];
          ret = ret @ bytes_of SignaturePrefix;
          ret = ret @ encKey;
          ret = ret @ chunkNonce;
          ret = ret @ chunkHash
      in ret)"

definition packCiphertext :: "bytes \<Rightarrow> bytes go" where
  "packCiphertext ciphertext =
     (if length ciphertext > MaxUint32 then Panic ''ciphertext chunk is too long''
      else
        let len32 = (of_nat (length ciphertext) :: 32 word);
            packet = [0xc6, 0, 0, 0, 0];
            packet = take 1 packet @ go_copy (take 4 (drop 1 packet)) (PutUint32 len32)
                     @ drop 5 packet;
            packet = packet @ ciphertext
        in Return packet)"

definition getPacketLen :: "int \<Rightarrow> int" where
  "getPacketLen plaintextLen =
     go_int (plaintextLen + int Overhead + int SignatureSize + int Bin32Overhead)"

definition sealPacket :: "prims \<Rightarrow> bytes \<Rightarrow> 64 word \<Rightarrow> bytes \<Rightarrow> bytes \<Rightarrow> bytes \<Rightarrow> bytes go" where
  "sealPacket P plaintext chunkNum encKey signKey attachmentNonce =
     (let chunkNonce = makeChunkNonce attachmentNonce chunkNum;
          signatureInput = makeSignatureInput P plaintext encKey chunkNonce;
          signature = ed25519_Sign P signKey signatureInput;
          signedChunk = signature @ plaintext;
          ciphertextChunk = secretbox_Seal P signedChunk chunkNonce encKey
      in packCiphertext ciphertextChunk)"

text \<open>
  Functions that return \<open>([]byte, error)\<close> return a pair; the error is \<open>None\<close> for \<open>nil\<close>.
  The length test compares \<open>uint64(length+5)\<close>, the sum taken in \<open>uint32\<close>, with
  \<open>uint64(len(packet))\<close>.
\<close>

definition unpackCiphertext :: "bytes \<Rightarrow> (bytes \<times> AttachmentCryptoError option) go" where
  "unpackCiphertext packet =
     (if length packet < Bin32Overhead then
        Return ([], Some (NewAttachmentError ShortMessagePackObject
          ''can't unpack bin object less than length 5, found %d'' [int (length packet)]))
      else go_bind (go_index packet 0) (\<lambda>tag.
        if tag \<noteq> Bin32Tag then
          Return ([], Some (NewAttachmentError WrongMessagePackFormat
            ''expected tag byte 0xc6, found %#x'' [uint tag]))
        else go_bind (go_slice packet 1 5) (\<lambda>lenBytes. go_bind (Uint32 lenBytes) (\<lambda>len.
          if (ucast (len + 5) :: 64 word) \<noteq> of_nat (length packet) then
            Return ([], Some (NewAttachmentError WrongMessagePackLength
              ''encoded length doesn't match packet size: %d + 5 != %d''
              [uint len, int (length packet)]))
          else go_bind (go_slice packet Bin32Overhead (length packet)) (\<lambda>ciphertext.
            Return (ciphertext, None))))))"

definition openPacket ::
  "prims \<Rightarrow> bytes \<Rightarrow> 64 word \<Rightarrow> bytes \<Rightarrow> bytes \<Rightarrow> bytes
   \<Rightarrow> (bytes \<times> AttachmentCryptoError option) go" where
  "openPacket P packet chunkNum encKey verifyKey attachmentNonce =
     go_bind (unpackCiphertext packet) (\<lambda>(ciphertext, err).
       case err of
         Some e \<Rightarrow> Return ([], Some e)
       | None \<Rightarrow>
          (let chunkNonce = makeChunkNonce attachmentNonce chunkNum in
           case secretbox_Open P ciphertext chunkNonce encKey of
             None \<Rightarrow> Return ([], Some (NewAttachmentError BadSecretbox
                        ''secretbox failed to open'' []))
           | Some signedChunk \<Rightarrow>
              if length signedChunk < SignatureSize then
                Return ([], Some (NewAttachmentError ShortSignature ''signature too short'' []))
              else go_bind (go_slice signedChunk 0 SignatureSize) (\<lambda>sigBytes.
                let signature = go_copy (replicate SignatureSize 0) sigBytes in
                go_bind (go_slice signedChunk SignatureSize (length signedChunk)) (\<lambda>plaintext.
                  let signatureInput = makeSignatureInput P plaintext encKey chunkNonce;
                      signatureValid = ed25519_Verify P verifyKey signatureInput signature
                  in if \<not> signatureValid then
                       Return ([], Some (NewAttachmentError BadSignature
                         ''signature failed to verify'' []))
                     else Return (plaintext, None)))))"

section \<open>Streaming attachment encoding\<close>

record AttachmentEncoder =
  e_encKey :: bytes
  e_signKey :: bytes
  e_nonce :: bytes
  e_buf :: bytes
  e_chunkNum :: "64 word"

definition NewAttachmentEncoder :: "bytes \<Rightarrow> bytes \<Rightarrow> bytes \<Rightarrow> AttachmentEncoder" where
  "NewAttachmentEncoder encKey signKey nonce =
     \<lparr> e_encKey = encKey, e_signKey = signKey, e_nonce = nonce, e_buf = [], e_chunkNum = 0 \<rparr>"

definition sealOnePacket ::
  "prims \<Rightarrow> AttachmentEncoder \<Rightarrow> nat \<Rightarrow> (bytes \<times> AttachmentEncoder) go" where
  "sealOnePacket P e plaintextLen =
     (if plaintextLen > length (e_buf e) then
        Panic ''encoder tried to seal a packet that was too big''
      else go_bind (go_slice (e_buf e) 0 plaintextLen) (\<lambda>plaintextChunk.
        go_bind (sealPacket P plaintextChunk (e_chunkNum e) (e_encKey e) (e_signKey e)
                   (e_nonce e)) (\<lambda>packet.
        go_bind (go_slice (e_buf e) plaintextLen (length (e_buf e))) (\<lambda>rest.
          Return (packet, e\<lparr>e_buf := rest, e_chunkNum := e_chunkNum e + 1\<rparr>)))))"

lemma go_bind_cong [fundef_cong]:
  "m = m' \<Longrightarrow> (\<And>x. m' = Return x \<Longrightarrow> f x = f' x) \<Longrightarrow> go_bind m f = go_bind m' f'"
  by (cases m') (simp_all add: go_bind_def)

lemma sealOnePacket_buf:
  "sealOnePacket P e n = Return (packet, e') \<Longrightarrow>
   n \<le> length (e_buf e) \<and> e_buf e' = drop n (e_buf e)"
  by (auto simp: sealOnePacket_def go_bind_def go_slice_def split: if_splits go.splits)

text \<open>The loop of \<open>Write\<close>: \<open>for len(e.buf) >= PlaintextChunkLength\<close>.\<close>

function Encoder_Write_loop ::
  "prims \<Rightarrow> AttachmentEncoder \<Rightarrow> bytes \<Rightarrow> (bytes \<times> AttachmentEncoder) go" where
  "Encoder_Write_loop P e output =
     (if length (e_buf e) \<ge> PlaintextChunkLength then
        go_bind (sealOnePacket P e PlaintextChunkLength) (\<lambda>(packet, e').
          Encoder_Write_loop P e' (output @ packet))
      else Return (output, e))"
  by pat_completeness auto
termination
proof (relation "measure (\<lambda>(P, e, output). length (e_buf e))")
  show "wf (measure (\<lambda>(P, e, output). length (e_buf e)))" by simp
next
  fix P :: prims and e :: AttachmentEncoder and acc :: bytes
    and x :: "bytes \<times> AttachmentEncoder" and packet e'
  assume "PlaintextChunkLength \<le> length (e_buf e)"
    and "sealOnePacket P e PlaintextChunkLength = Return x" and "(packet, e') = x"
  then have "e_buf e' = drop PlaintextChunkLength (e_buf e)"
    using sealOnePacket_buf [of P e PlaintextChunkLength packet e'] by simp
  with \<open>PlaintextChunkLength \<le> length (e_buf e)\<close>
  show "((P, e', acc @ packet), (P, e, acc)) \<in> measure (\<lambda>(P, e, output). length (e_buf e))"
    by (simp add: PlaintextChunkLength_def)
qed

declare Encoder_Write_loop.simps [simp del]

definition Encoder_Write ::
  "prims \<Rightarrow> AttachmentEncoder \<Rightarrow> bytes \<Rightarrow> (bytes \<times> AttachmentEncoder) go" where
  "Encoder_Write P e plaintext = Encoder_Write_loop P (e\<lparr>e_buf := e_buf e @ plaintext\<rparr>) []"

definition Encoder_Finish :: "prims \<Rightarrow> AttachmentEncoder \<Rightarrow> (bytes \<times> AttachmentEncoder) go" where
  "Encoder_Finish P e =
     (if length (e_buf e) \<ge> PlaintextChunkLength then
        Panic ''encoder buffer has more bytes than expected''
      else sealOnePacket P e (length (e_buf e)))"

section \<open>Streaming attachment decoding\<close>

record AttachmentDecoder =
  d_encKey :: bytes
  d_verifyKey :: bytes
  d_nonce :: bytes
  d_buf :: bytes
  d_chunkNum :: "64 word"
  d_err :: "AttachmentCryptoError option"

definition NewAttachmentDecoder :: "bytes \<Rightarrow> bytes \<Rightarrow> bytes \<Rightarrow> AttachmentDecoder" where
  "NewAttachmentDecoder encKey verifyKey nonce =
     \<lparr> d_encKey = encKey, d_verifyKey = verifyKey, d_nonce = nonce, d_buf = [],
       d_chunkNum = 0, d_err = None \<rparr>"

definition openOnePacket ::
  "prims \<Rightarrow> AttachmentDecoder \<Rightarrow> nat
   \<Rightarrow> (bytes \<times> AttachmentCryptoError option \<times> AttachmentDecoder) go" where
  "openOnePacket P d packetLen =
     (if packetLen > length (d_buf d) then
        Panic ''decoder tried to open a packet that was too big''
      else go_bind (go_slice (d_buf d) 0 packetLen) (\<lambda>packet.
        go_bind (openPacket P packet (d_chunkNum d) (d_encKey d) (d_verifyKey d) (d_nonce d))
          (\<lambda>(plaintext, err).
             case err of
               Some e \<Rightarrow> Return ([], Some e, d)
             | None \<Rightarrow>
                 go_bind (go_slice (d_buf d) packetLen (length (d_buf d))) (\<lambda>rest.
                   Return (plaintext, None,
                           d\<lparr>d_buf := rest, d_chunkNum := d_chunkNum d + 1\<rparr>)))))"

lemma openOnePacket_buf:
  "openOnePacket P d n = Return (plaintext, None, d') \<Longrightarrow>
   n \<le> length (d_buf d) \<and> d_buf d' = drop n (d_buf d)"
  by (auto simp: openOnePacket_def go_bind_def go_slice_def
      split: if_splits go.splits prod.splits option.splits)

text \<open>
  The loop of \<open>Write\<close>: \<open>for len(d.buf) >= PacketLength\<close>. Each round assigns \<open>d.err\<close>
  and returns \<open>nil\<close> with the error when it is set.
\<close>

function Decoder_Write_loop ::
  "prims \<Rightarrow> AttachmentDecoder \<Rightarrow> bytes
   \<Rightarrow> (bytes \<times> AttachmentCryptoError option \<times> AttachmentDecoder) go" where
  "Decoder_Write_loop P d output =
     (if length (d_buf d) \<ge> PacketLength then
        go_bind (openOnePacket P d PacketLength) (\<lambda>(plaintext, err, d').
          let d'' = d'\<lparr>d_err := err\<rparr> in
          case err of
            Some e \<Rightarrow> Return ([], Some e, d'')
          | None \<Rightarrow> Decoder_Write_loop P d'' (output @ plaintext))
      else Return (output, None, d))"
  by pat_completeness auto
termination
proof (relation "measure (\<lambda>(P, d, output). length (d_buf d))", goal_cases)
  case 1
  show ?case by simp
next
  case 2
  then show ?case
    by (auto dest!: openOnePacket_buf simp: PacketLength_def PlaintextChunkLength_def)
qed

declare Decoder_Write_loop.simps [simp del]

definition Decoder_Write ::
  "prims \<Rightarrow> AttachmentDecoder \<Rightarrow> bytes
   \<Rightarrow> (bytes \<times> AttachmentCryptoError option \<times> AttachmentDecoder) go" where
  "Decoder_Write P d ciphertext =
     (case d_err d of
        Some e \<Rightarrow> Return ([], Some e, d)
      | None \<Rightarrow> Decoder_Write_loop P (d\<lparr>d_buf := d_buf d @ ciphertext\<rparr>) [])"

definition Decoder_Finish ::
  "prims \<Rightarrow> AttachmentDecoder
   \<Rightarrow> (bytes \<times> AttachmentCryptoError option \<times> AttachmentDecoder) go" where
  "Decoder_Finish P d =
     (case d_err d of
        Some e \<Rightarrow> Return ([], Some e, d)
      | None \<Rightarrow>
          if length (d_buf d) \<ge> PacketLength then
            Panic ''decoder buffer has more bytes than expected''
          else go_bind (openOnePacket P d (length (d_buf d))) (\<lambda>(plaintext, err, d').
            Return (plaintext, err, d'\<lparr>d_err := err\<rparr>)))"

section \<open>All-at-once wrapper functions\<close>

text \<open>\<open>/\<close> and \<open>%\<close> on Go's \<open>int\<close> truncate towards zero: \<open>sdiv\<close> and \<open>smod\<close>.\<close>

definition GetSealedSize :: "int \<Rightarrow> int" where
  "GetSealedSize plaintextLen =
     (let fullChunks = plaintextLen sdiv int PlaintextChunkLength;
          totalLen = go_int (fullChunks * getPacketLen (int PlaintextChunkLength));
          remainingPlaintext = plaintextLen smod int PlaintextChunkLength;
          totalLen = go_int (totalLen + getPacketLen remainingPlaintext)
      in totalLen)"

definition SealWholeAttachment :: "prims \<Rightarrow> bytes \<Rightarrow> bytes \<Rightarrow> bytes \<Rightarrow> bytes \<Rightarrow> bytes go" where
  "SealWholeAttachment P plaintext encKey signKey nonce =
     (let encoder = NewAttachmentEncoder encKey signKey nonce in
      go_bind (Encoder_Write P encoder plaintext) (\<lambda>(output, encoder).
      go_bind (Encoder_Finish P encoder) (\<lambda>(final, encoder).
        Return (output @ final))))"

definition OpenWholeAttachment ::
  "prims \<Rightarrow> bytes \<Rightarrow> bytes \<Rightarrow> bytes \<Rightarrow> bytes \<Rightarrow> (bytes \<times> AttachmentCryptoError option) go" where
  "OpenWholeAttachment P sealed encKey verifyKey nonce =
     (let decoder = NewAttachmentDecoder encKey verifyKey nonce in
      go_bind (Decoder_Write P decoder sealed) (\<lambda>(output, err, decoder).
        case err of
          Some e \<Rightarrow> Return ([], Some e)
        | None \<Rightarrow>
            go_bind (Decoder_Finish P decoder) (\<lambda>(moreOutput, err, decoder).
              case err of
                Some e \<Rightarrow> Return ([], Some e)
              | None \<Rightarrow> Return (output @ moreOutput, None))))"

section \<open>Feeding a stream in pieces\<close>

text \<open>
  The caller of the operational contract: it feeds the pieces to \<open>Write\<close> in order, appends
  what each call returns, calls \<open>Finish\<close> once at the end and appends its output. A decoding
  caller stops at the first error and returns it with no plaintext.
\<close>

fun Encoder_feed :: "prims \<Rightarrow> AttachmentEncoder \<Rightarrow> bytes list \<Rightarrow> bytes \<Rightarrow> bytes go" where
  "Encoder_feed P e [] acc =
     go_bind (Encoder_Finish P e) (\<lambda>(final, e'). Return (acc @ final))"
| "Encoder_feed P e (p # ps) acc =
     go_bind (Encoder_Write P e p) (\<lambda>(out, e'). Encoder_feed P e' ps (acc @ out))"

fun Decoder_feed ::
  "prims \<Rightarrow> AttachmentDecoder \<Rightarrow> bytes list \<Rightarrow> bytes
   \<Rightarrow> (bytes \<times> AttachmentCryptoError option) go" where
  "Decoder_feed P d [] acc =
     go_bind (Decoder_Finish P d) (\<lambda>(moreOutput, err, d').
       case err of
         Some e \<Rightarrow> Return ([], Some e)
       | None \<Rightarrow> Return (acc @ moreOutput, None))"
| "Decoder_feed P d (c # cs) acc =
     go_bind (Decoder_Write P d c) (\<lambda>(out, err, d').
       case err of
         Some e \<Rightarrow> Return ([], Some e)
       | None \<Rightarrow> Decoder_feed P d' cs (acc @ out))"

section \<open>Sequences of calls\<close>

text \<open>
  A decoder is used through \<open>Write\<close> and \<open>Finish\<close> calls; \<open>Decoder_calls\<close> makes a sequence of
  them on one decoder and lists what each call returned.
\<close>

datatype DecoderCall = CallWrite bytes | CallFinish

fun Decoder_call ::
  "prims \<Rightarrow> AttachmentDecoder \<Rightarrow> DecoderCall
   \<Rightarrow> (bytes \<times> AttachmentCryptoError option \<times> AttachmentDecoder) go" where
  "Decoder_call P d (CallWrite ciphertext) = Decoder_Write P d ciphertext"
| "Decoder_call P d CallFinish = Decoder_Finish P d"

fun Decoder_calls ::
  "prims \<Rightarrow> AttachmentDecoder \<Rightarrow> DecoderCall list
   \<Rightarrow> ((bytes \<times> AttachmentCryptoError option) list) go" where
  "Decoder_calls P d [] = Return []"
| "Decoder_calls P d (c # cs) =
     go_bind (Decoder_call P d c) (\<lambda>(out, err, d').
       go_bind (Decoder_calls P d' cs) (\<lambda>results. Return ((out, err) # results)))"

text \<open>
  \<open>Encoder_writes\<close> is the encoder after a sequence of \<open>Write\<close> calls.
  \<open>Encoder_Write_loop_states\<close> lists the encoder at each evaluation of the loop condition of
  \<open>Write\<close>, the recursion being the loop's own; \<open>Encoder_Write_states\<close> is that list for one
  \<open>Write\<close> call, from the moment its input has been appended.
\<close>

fun Encoder_writes :: "prims \<Rightarrow> AttachmentEncoder \<Rightarrow> bytes list \<Rightarrow> AttachmentEncoder go" where
  "Encoder_writes P e [] = Return e"
| "Encoder_writes P e (p # ps) =
     go_bind (Encoder_Write P e p) (\<lambda>(out, e'). Encoder_writes P e' ps)"

function Encoder_Write_loop_states :: "prims \<Rightarrow> AttachmentEncoder \<Rightarrow> AttachmentEncoder list" where
  "Encoder_Write_loop_states P e =
     e # (if length (e_buf e) \<ge> PlaintextChunkLength then
            (case sealOnePacket P e PlaintextChunkLength of
               Panic s \<Rightarrow> []
             | Return r \<Rightarrow> Encoder_Write_loop_states P (snd r))
          else [])"
  by pat_completeness auto
termination
proof (relation "measure (\<lambda>(P, e). length (e_buf e))", goal_cases)
  case 1
  show ?case by simp
next
  case (2 P e r)
  then have "e_buf (snd r) = drop PlaintextChunkLength (e_buf e)"
    using sealOnePacket_buf [of P e PlaintextChunkLength "fst r" "snd r"] by simp
  with 2 show ?case by (simp add: PlaintextChunkLength_def)
qed

declare Encoder_Write_loop_states.simps [simp del]

definition Encoder_Write_states ::
  "prims \<Rightarrow> AttachmentEncoder \<Rightarrow> bytes \<Rightarrow> AttachmentEncoder list" where
  "Encoder_Write_states P e plaintext =
     Encoder_Write_loop_states P (e\<lparr>e_buf := e_buf e @ plaintext\<rparr>)"

section \<open>Closed forms used in the proofs\<close>

text \<open>
  The bytes of one sealed packet, and the run of full packets that the loop of \<open>Write\<close> emits
  for the first \<open>j\<close> chunks of a buffer, starting at a chunk number.
\<close>

definition packet_bytes :: "prims \<Rightarrow> bytes \<Rightarrow> 64 word \<Rightarrow> bytes \<Rightarrow> bytes \<Rightarrow> bytes \<Rightarrow> bytes" where
  "packet_bytes P plaintext chunkNum encKey signKey attachmentNonce =
     (let chunkNonce = makeChunkNonce attachmentNonce chunkNum;
          box = secretbox_Seal P
                  (ed25519_Sign P signKey (makeSignatureInput P plaintext encKey chunkNonce)
                   @ plaintext) chunkNonce encKey
      in 0xc6 # PutUint32 (of_nat (length box)) @ box)"

primrec full_packets ::
  "prims \<Rightarrow> bytes \<Rightarrow> bytes \<Rightarrow> bytes \<Rightarrow> 64 word \<Rightarrow> nat \<Rightarrow> bytes \<Rightarrow> bytes" where
  "full_packets P encKey signKey nonce chunkNum 0 b = []"
| "full_packets P encKey signKey nonce chunkNum (Suc j) b =
     packet_bytes P (take PlaintextChunkLength b) chunkNum encKey signKey nonce
     @ full_packets P encKey signKey nonce (chunkNum + 1) j (drop PlaintextChunkLength b)"

text \<open>The keys and nonce of the end-to-end scenarios: all zero.\<close>

definition K32 :: bytes where "K32 = replicate 32 0"
definition K64 :: bytes where "K64 = replicate 64 0"
definition N16 :: bytes where "N16 = replicate 16 0"

section \<open>Basic facts\<close>

lemma go_bind_Return [simp]: "go_bind (Return x) f = f x"
  by (simp add: go_bind_def)

lemma go_bind_Panic [simp]: "go_bind (Panic s) f = Panic s"
  by (simp add: go_bind_def)

lemma go_slice_ok: "lo \<le> hi \<Longrightarrow> hi \<le> length s \<Longrightarrow> go_slice s lo hi = Return (take (hi - lo) (drop lo s))"
  by (simp add: go_slice_def)

lemma length_PutUint64 [simp]: "length (PutUint64 v) = 8"
  by (simp add: PutUint64_def)

lemma length_PutUint32 [simp]: "length (PutUint32 v) = 4"
  by (simp add: PutUint32_def)

lemma length_makeChunkNonce [simp]: "length (makeChunkNonce n c) = 24"
  by (simp add: makeChunkNonce_def go_copy_def SecretboxNonceSize_def Let_def)

lemma makeChunkNonce_eq: "length n = 16 \<Longrightarrow> makeChunkNonce n c = n @ PutUint64 c"
  by (simp add: makeChunkNonce_def go_copy_def SecretboxNonceSize_def Let_def)

lemma Uint32_PutUint32: "Uint32 (PutUint32 w) = Return w"
  unfolding Uint32_def PutUint32_def go_index_def
  apply simp
proof (rule bit_word_eqI, goal_cases)
  case (1 n)
  have *: "24 \<le> n \<Longrightarrow> 24 + (n - 24) = n" "16 \<le> n \<Longrightarrow> 16 + (n - 16) = n"
    "8 \<le> n \<Longrightarrow> 8 + (n - 8) = n" by simp_all
  consider "n < 8" | "8 \<le> n" "n < 16" | "16 \<le> n" "n < 24" | "24 \<le> n" by linarith
  then show ?case using 1 *
    by cases (auto simp add: bit_simps)
qed

lemma length_SignaturePrefix: "length (bytes_of SignaturePrefix) = 24"
  by (simp add: bytes_of_def SignaturePrefix_def)

lemma packCiphertext_ok:
  "length c \<le> MaxUint32 \<Longrightarrow> packCiphertext c = Return (0xc6 # PutUint32 (of_nat (length c)) @ c)"
  by (simp add: packCiphertext_def go_copy_def Let_def)


lemma ucast_eq_of_nat_iff:
  fixes x :: "32 word"
  assumes "n < 2 ^ 64"
  shows "((ucast x :: 64 word) = of_nat n) \<longleftrightarrow> unat x = n"
proof -
  have x: "unat x < 2 ^ 64"
    using unsigned_less [of x, where ?'a = nat] by simp
  have h: "(ucast x :: 64 word) = of_nat (unat x)" by (simp add: of_nat_unat)
  have "((of_nat (unat x) :: 64 word) = of_nat n) \<longleftrightarrow> take_bit 64 (unat x) = take_bit 64 n"
    by (simp only: word_of_nat_eq_iff len_num1 len_bit0 mult_numeral_left_semiring_numeral)
      simp
  also have "\<dots> \<longleftrightarrow> unat x = n"
    using assms x by (simp add: take_bit_nat_eq_self)
  finally show ?thesis unfolding h .
qed

lemma unat_plus5:
  fixes n :: nat
  assumes "n + 5 < 2 ^ 32"
  shows "unat ((of_nat n :: 32 word) + 5) = n + 5"
proof -
  have "(of_nat n :: 32 word) + 5 = of_nat (n + 5)" by simp
  then show ?thesis using assms by (simp only: unat_of_nat) simp
qed

lemma unpackCiphertext_packed:
  assumes "length c + 5 < 2 ^ 32"
  shows "unpackCiphertext (0xc6 # PutUint32 (of_nat (length c)) @ c) = Return (c, None)"
proof -
  let ?p = "0xc6 # PutUint32 (of_nat (length c)) @ c"
  have len: "length ?p = length c + 5" by simp
  have idx: "go_index ?p 0 = Return 0xc6" by (simp add: go_index_def)
  have sl: "go_slice ?p 1 5 = Return (PutUint32 (of_nat (length c)))"
    by (simp add: go_slice_def)
  have rest: "go_slice ?p Bin32Overhead (length ?p) = Return c"
    by (simp add: go_slice_def Bin32Overhead_def)
  have "length c + 5 < 2 ^ 64" using assms by simp
  then have "(ucast ((of_nat (length c) :: 32 word) + 5) :: 64 word) = of_nat (length c + 5)"
    using unat_plus5 [OF assms] by (rule ucast_eq_of_nat_iff [THEN iffD2])
  then have test: "(ucast ((of_nat (length c) :: 32 word) + 5) :: 64 word) = of_nat (length ?p)"
    by (simp only: len)
  show ?thesis
    unfolding unpackCiphertext_def
    by (simp only: idx sl rest test Uint32_PutUint32 go_bind_Return) (simp add: Bin32Overhead_def Bin32Tag_def)
qed


lemma CH_pos: "0 < PlaintextChunkLength"
  by (simp add: PlaintextChunkLength_def)

lemma PacketLength_eq: "PacketLength = PlaintextChunkLength + 85"
  by (simp add: PacketLength_def SignatureSize_def Overhead_def Bin32Overhead_def)

lemma sealPacket_eq:
  assumes "sizes_ok P" and "length plaintext + 80 \<le> MaxUint32"
  shows "sealPacket P plaintext chunkNum encKey signKey nonce
         = Return (packet_bytes P plaintext chunkNum encKey signKey nonce)"
  using assms
  by (simp add: sealPacket_def packet_bytes_def Let_def packCiphertext_ok sizes_ok_def)

lemma length_packet_bytes:
  "sizes_ok P \<Longrightarrow> length (packet_bytes P plaintext chunkNum encKey signKey nonce)
                 = length plaintext + 85"
  by (simp add: packet_bytes_def Let_def sizes_ok_def)

lemma take5_packet_bytes:
  "sizes_ok P \<Longrightarrow> take 5 (packet_bytes P plaintext chunkNum encKey signKey nonce)
                 = 0xc6 # PutUint32 (of_nat (length plaintext + 80))"
  by (simp add: packet_bytes_def Let_def sizes_ok_def add.commute)

lemma openPacket_packet_bytes:
  assumes "sizes_ok P" and "box_ok P" and "keypair P signKey verifyKey"
    and "length plaintext + 85 < 2 ^ 32"
  shows "openPacket P (packet_bytes P plaintext chunkNum encKey signKey nonce)
           chunkNum encKey verifyKey nonce = Return (plaintext, None)"
proof -
  let ?cn = "makeChunkNonce nonce chunkNum"
  let ?sig = "ed25519_Sign P signKey (makeSignatureInput P plaintext encKey ?cn)"
  let ?box = "secretbox_Seal P (?sig @ plaintext) ?cn encKey"
  have sig: "length ?sig = 64" using assms(1) by (simp add: sizes_ok_def)
  have box: "length ?box = length plaintext + 80" using assms(1) by (simp add: sizes_ok_def)
  have "length ?box + 5 < 2 ^ 32" using assms(4) box by simp
  then have un: "unpackCiphertext (packet_bytes P plaintext chunkNum encKey signKey nonce)
             = Return (?box, None)"
    unfolding packet_bytes_def Let_def by (rule unpackCiphertext_packed)
  have op: "secretbox_Open P ?box ?cn encKey = Some (?sig @ plaintext)"
    using assms(2) by (simp add: box_ok_def)
  have ver: "ed25519_Verify P verifyKey (makeSignatureInput P plaintext encKey ?cn) ?sig"
    using assms(3) by (simp add: keypair_def)
  show ?thesis
    unfolding openPacket_def
    by (simp add: un op sig ver go_slice_def go_copy_def SignatureSize_def Let_def)
qed

lemma sealOnePacket_eq:
  assumes "sizes_ok P" and "n \<le> length (e_buf e)" and "n + 80 \<le> MaxUint32"
  shows "sealOnePacket P e n =
         Return (packet_bytes P (take n (e_buf e)) (e_chunkNum e) (e_encKey e) (e_signKey e)
                   (e_nonce e),
                 e\<lparr>e_buf := drop n (e_buf e), e_chunkNum := e_chunkNum e + 1\<rparr>)"
  using assms
  by (simp add: sealOnePacket_def go_slice_def sealPacket_eq)

lemma CH_small: "PlaintextChunkLength + 80 \<le> MaxUint32"
  by (simp add: PlaintextChunkLength_def MaxUint32_def)

lemma Encoder_Write_loop_eq:
  assumes "sizes_ok P"
  shows "Encoder_Write_loop P e acc =
         Return (acc @ full_packets P (e_encKey e) (e_signKey e) (e_nonce e) (e_chunkNum e)
                         (length (e_buf e) div PlaintextChunkLength) (e_buf e),
                 e\<lparr>e_buf := drop (length (e_buf e) div PlaintextChunkLength
                                    * PlaintextChunkLength) (e_buf e),
                   e_chunkNum := e_chunkNum e
                                 + of_nat (length (e_buf e) div PlaintextChunkLength)\<rparr>)"
  using assms
proof (induction P e acc rule: Encoder_Write_loop.induct)
  case (1 P e acc)
  note ok = \<open>sizes_ok P\<close>
  show ?case
  proof (cases "PlaintextChunkLength \<le> length (e_buf e)")
    case False
    then have "length (e_buf e) div PlaintextChunkLength = 0" by simp
    with False show ?thesis
      by (subst Encoder_Write_loop.simps) simp
  next
    case True
    let ?e1 = "e\<lparr>e_buf := drop PlaintextChunkLength (e_buf e), e_chunkNum := e_chunkNum e + 1\<rparr>"
    let ?pk = "packet_bytes P (take PlaintextChunkLength (e_buf e)) (e_chunkNum e) (e_encKey e)
                 (e_signKey e) (e_nonce e)"
    have s1: "sealOnePacket P e PlaintextChunkLength = Return (?pk, ?e1)"
      using ok True CH_small by (rule sealOnePacket_eq)
    have k: "length (e_buf e) div PlaintextChunkLength
             = Suc ((length (e_buf e) - PlaintextChunkLength) div PlaintextChunkLength)"
      using True CH_pos by (simp add: le_div_geq)
    have IH: "Encoder_Write_loop P ?e1 (acc @ ?pk) =
         Return ((acc @ ?pk) @ full_packets P (e_encKey ?e1) (e_signKey ?e1) (e_nonce ?e1)
                         (e_chunkNum ?e1)
                         (length (e_buf ?e1) div PlaintextChunkLength) (e_buf ?e1),
                 ?e1\<lparr>e_buf := drop (length (e_buf ?e1) div PlaintextChunkLength
                                    * PlaintextChunkLength) (e_buf ?e1),
                   e_chunkNum := e_chunkNum ?e1
                                 + of_nat (length (e_buf ?e1) div PlaintextChunkLength)\<rparr>)"
      using "1.IH" [OF True s1 refl ok] by simp
    show ?thesis
      apply (subst Encoder_Write_loop.simps)
      apply (simp only: True if_True s1 go_bind_Return prod.case IH)
      apply (simp add: k add.commute add.left_commute)
      done
  qed
qed


lemma length_full_packets:
  "sizes_ok P \<Longrightarrow> j * PlaintextChunkLength \<le> length b \<Longrightarrow>
   length (full_packets P encKey signKey nonce chunkNum j b) = j * PacketLength"
proof (induction j arbitrary: chunkNum b)
  case 0
  show ?case by simp
next
  case (Suc j)
  from Suc.prems(2) have "j * PlaintextChunkLength \<le> length (drop PlaintextChunkLength b)"
    and "PlaintextChunkLength \<le> length b" by simp_all
  with Suc.IH [OF Suc.prems(1), of "drop PlaintextChunkLength b" "chunkNum + 1"] Suc.prems(1)
  show ?case by (simp add: length_packet_bytes PacketLength_eq)
qed

lemma Encoder_Finish_eq:
  assumes "sizes_ok P" and "length (e_buf e) < PlaintextChunkLength"
  shows "Encoder_Finish P e =
         Return (packet_bytes P (e_buf e) (e_chunkNum e) (e_encKey e) (e_signKey e) (e_nonce e),
                 e\<lparr>e_buf := [], e_chunkNum := e_chunkNum e + 1\<rparr>)"
proof -
  have "length (e_buf e) + 80 \<le> MaxUint32"
    using assms(2) CH_small by simp
  with assms show ?thesis
    by (simp add: Encoder_Finish_def sealOnePacket_eq)
qed

lemma CH_packet_small: "PlaintextChunkLength + 85 < 2 ^ 32"
  by (simp add: PlaintextChunkLength_def)

lemma openOnePacket_packet_bytes:
  assumes "sizes_ok P" and "box_ok P" and "keypair P signKey (d_verifyKey d)"
    and "length plaintext \<le> PlaintextChunkLength"
    and "d_buf d = packet_bytes P plaintext (d_chunkNum d) (d_encKey d) signKey (d_nonce d) @ rest"
  shows "openOnePacket P d (length plaintext + 85) =
         Return (plaintext, None, d\<lparr>d_buf := rest, d_chunkNum := d_chunkNum d + 1\<rparr>)"
proof -
  let ?pk = "packet_bytes P plaintext (d_chunkNum d) (d_encKey d) signKey (d_nonce d)"
  have len: "length ?pk = length plaintext + 85"
    using assms(1) by (rule length_packet_bytes)
  have small: "length plaintext + 85 < 2 ^ 32"
    using assms(4) CH_packet_small by simp
  have op: "openPacket P ?pk (d_chunkNum d) (d_encKey d) (d_verifyKey d) (d_nonce d)
            = Return (plaintext, None)"
    using assms(1-3) small by (rule openPacket_packet_bytes)
  show ?thesis
    unfolding openOnePacket_def
    using len by (simp add: assms(5) go_slice_def op)
qed

lemma Decoder_Write_loop_full_packets:
  assumes "sizes_ok P" and "box_ok P" and "keypair P signKey (d_verifyKey d)"
    and "d_err d = None"
    and "d_buf d = full_packets P (d_encKey d) signKey (d_nonce d) (d_chunkNum d) j b @ rest"
    and "j * PlaintextChunkLength \<le> length b"
    and "length rest < PacketLength"
  shows "Decoder_Write_loop P d acc =
         Return (acc @ take (j * PlaintextChunkLength) b, None,
                 d\<lparr>d_buf := rest, d_chunkNum := d_chunkNum d + of_nat j\<rparr>)"
  using assms(3-7)
proof (induction j arbitrary: d acc b)
  case 0
  then have "d\<lparr>d_buf := rest, d_chunkNum := d_chunkNum d + of_nat 0\<rparr> = d" by simp
  with 0 show ?case
    by (subst Decoder_Write_loop.simps) simp
next
  case (Suc j)
  let ?pt = "take PlaintextChunkLength b"
  let ?b1 = "drop PlaintextChunkLength b"
  let ?rest1 = "full_packets P (d_encKey d) signKey (d_nonce d) (d_chunkNum d + 1) j ?b1 @ rest"
  let ?d1 = "d\<lparr>d_buf := ?rest1, d_chunkNum := d_chunkNum d + 1\<rparr>"
  from Suc.prems(4) have b: "PlaintextChunkLength \<le> length b"
    and b1: "j * PlaintextChunkLength \<le> length ?b1" by simp_all
  then have lpt: "length ?pt = PlaintextChunkLength" by simp
  have buf: "d_buf d = packet_bytes P ?pt (d_chunkNum d) (d_encKey d) signKey (d_nonce d) @ ?rest1"
    using Suc.prems(3) by simp
  have "openOnePacket P d (length ?pt + 85) = Return (?pt, None, ?d1)"
    using assms(1,2) Suc.prems(1) _ buf by (rule openOnePacket_packet_bytes) (simp add: lpt)
  then have o1: "openOnePacket P d PacketLength = Return (?pt, None, ?d1)"
    by (simp only: lpt PacketLength_eq)
  have "length (packet_bytes P ?pt (d_chunkNum d) (d_encKey d) signKey (d_nonce d))
        = PacketLength"
    by (simp only: length_packet_bytes [OF assms(1)] lpt PacketLength_eq)
  then have big: "PacketLength \<le> length (d_buf d)"
    by (simp add: buf)
  have IH: "Decoder_Write_loop P ?d1 (acc @ ?pt) =
         Return ((acc @ ?pt) @ take (j * PlaintextChunkLength) ?b1, None,
                 ?d1\<lparr>d_buf := rest, d_chunkNum := d_chunkNum ?d1 + of_nat j\<rparr>)"
    using Suc.prems(1,2,5) b1 by (intro Suc.IH) simp_all
  have tk: "?pt @ take (j * PlaintextChunkLength) ?b1 = take (Suc j * PlaintextChunkLength) b"
    by (simp add: take_add)
  have d1: "?d1\<lparr>d_err := None\<rparr> = ?d1"
    using Suc.prems(2) by simp
  show ?case
    apply (subst Decoder_Write_loop.simps)
    apply (simp only: big if_True o1 go_bind_Return prod.case Let_def option.case d1 IH)
    apply (simp only: append_assoc tk)
    apply (simp add: add.commute add.left_commute)
    done
qed


section \<open>Sealing and opening a whole attachment\<close>

lemma Encoder_Write_eq:
  assumes "sizes_ok P"
  shows "Encoder_Write P e p =
         Return (full_packets P (e_encKey e) (e_signKey e) (e_nonce e) (e_chunkNum e)
                   (length (e_buf e @ p) div PlaintextChunkLength) (e_buf e @ p),
                 e\<lparr>e_buf := drop (length (e_buf e @ p) div PlaintextChunkLength
                                    * PlaintextChunkLength) (e_buf e @ p),
                   e_chunkNum := e_chunkNum e
                                 + of_nat (length (e_buf e @ p) div PlaintextChunkLength)\<rparr>)"
  unfolding Encoder_Write_def
  by (simp add: Encoder_Write_loop_eq [OF assms])

lemma SealWholeAttachment_eq:
  assumes "sizes_ok P"
  shows "SealWholeAttachment P plaintext encKey signKey nonce =
         Return (full_packets P encKey signKey nonce 0
                   (length plaintext div PlaintextChunkLength) plaintext
                 @ packet_bytes P
                     (drop (length plaintext div PlaintextChunkLength * PlaintextChunkLength)
                        plaintext)
                     (of_nat (length plaintext div PlaintextChunkLength)) encKey signKey nonce)"
proof -
  let ?q = "length plaintext div PlaintextChunkLength"
  let ?e0 = "NewAttachmentEncoder encKey signKey nonce"
  let ?e1 = "?e0\<lparr>e_buf := drop (?q * PlaintextChunkLength) plaintext, e_chunkNum := of_nat ?q\<rparr>"
  have w: "Encoder_Write P ?e0 plaintext =
           Return (full_packets P encKey signKey nonce 0 ?q plaintext, ?e1)"
    by (simp add: Encoder_Write_eq [OF assms] NewAttachmentEncoder_def)
  have "length plaintext - ?q * PlaintextChunkLength = length plaintext mod PlaintextChunkLength"
    by (simp add: minus_div_mult_eq_mod)
  then have "length (e_buf ?e1) < PlaintextChunkLength"
    using CH_pos by simp
  then have f: "Encoder_Finish P ?e1 =
      Return (packet_bytes P (e_buf ?e1) (e_chunkNum ?e1) (e_encKey ?e1) (e_signKey ?e1)
                (e_nonce ?e1),
              ?e1\<lparr>e_buf := [], e_chunkNum := e_chunkNum ?e1 + 1\<rparr>)"
    using assms by (intro Encoder_Finish_eq)
  show ?thesis
    unfolding SealWholeAttachment_def Let_def
    by (simp only: w f go_bind_Return prod.case) (simp add: NewAttachmentEncoder_def)
qed

lemma OpenWholeAttachment_sealed:
  assumes "sizes_ok P" and "box_ok P" and "keypair P signKey verifyKey"
  shows "OpenWholeAttachment P
           (full_packets P encKey signKey nonce 0
                   (length plaintext div PlaintextChunkLength) plaintext
                 @ packet_bytes P
                     (drop (length plaintext div PlaintextChunkLength * PlaintextChunkLength)
                        plaintext)
                     (of_nat (length plaintext div PlaintextChunkLength)) encKey signKey nonce)
           encKey verifyKey nonce = Return (plaintext, None)"
proof -
  let ?q = "length plaintext div PlaintextChunkLength"
  let ?last = "drop (?q * PlaintextChunkLength) plaintext"
  let ?fin = "packet_bytes P ?last (of_nat ?q) encKey signKey nonce"
  let ?sealed = "full_packets P encKey signKey nonce 0 ?q plaintext @ ?fin"
  let ?d0 = "NewAttachmentDecoder encKey verifyKey nonce"
  define d1 where "d1 = \<lparr> d_encKey = encKey, d_verifyKey = verifyKey, d_nonce = nonce,
    d_buf = ?fin, d_chunkNum = of_nat ?q, d_err = None \<rparr>"
  have "length plaintext - ?q * PlaintextChunkLength = length plaintext mod PlaintextChunkLength"
    by (simp add: minus_div_mult_eq_mod)
  then have lst: "length ?last < PlaintextChunkLength"
    using CH_pos by simp
  then have tm: "length ?fin < PacketLength"
    by (simp add: length_packet_bytes [OF assms(1)] PacketLength_eq)
  have w: "Decoder_Write P ?d0 ?sealed =
                Return (take (?q * PlaintextChunkLength) plaintext, None, d1)"
    using Decoder_Write_loop_full_packets [OF assms(1,2),
        of signKey "?d0\<lparr>d_buf := ?sealed\<rparr>" ?q plaintext ?fin "[]"] assms(3) tm
    by (simp add: Decoder_Write_def NewAttachmentDecoder_def d1_def)
  have o: "openOnePacket P d1 (length ?last + 85) =
        Return (?last, None, d1\<lparr>d_buf := [], d_chunkNum := d_chunkNum d1 + 1\<rparr>)"
    using openOnePacket_packet_bytes [OF assms(1,2), of signKey d1 ?last "[]"] assms(3) lst
    by (simp add: d1_def)
  have l: "length (d_buf d1) = length ?last + 85"
    by (simp add: d1_def length_packet_bytes [OF assms(1)])
  have e: "d_err d1 = None" by (simp add: d1_def)
  have f: "Decoder_Finish P d1 =
      Return (?last, None, d1\<lparr>d_buf := [], d_chunkNum := d_chunkNum d1 + 1, d_err := None\<rparr>)"
    unfolding Decoder_Finish_def using tm lst
    by (simp only: e l o option.case go_bind_Return prod.case) (simp add: PacketLength_eq)
  show ?thesis
    unfolding OpenWholeAttachment_def Let_def
    by (simp only: w f go_bind_Return prod.case option.case) simp
qed

text \<open>
  Claim C1 (round trip). For every plaintext, keys and nonce, with \<open>verifyKey\<close> the public key
  of \<open>signKey\<close>: sealing returns, and opening what it returned, under the same symmetric key
  and nonce, returns the plaintext and no error.
\<close>

theorem roundtrip:
  assumes "sizes_ok P" and "box_ok P" and "keypair P signKey verifyKey"
  shows "go_bind (SealWholeAttachment P plaintext encKey signKey nonce)
           (\<lambda>sealed. OpenWholeAttachment P sealed encKey verifyKey nonce)
         = Return (plaintext, None)"
  by (simp only: SealWholeAttachment_eq [OF assms(1)] go_bind_Return
        OpenWholeAttachment_sealed [OF assms])


text \<open>The small instance of the primitives meets the guarantees.\<close>

lemma length_pad64 [simp]: "length (pad64 m) = 64"
  unfolding pad64_def by (simp add: min_def)

lemma length_test_tag [simp]: "length (test_tag n k) = 16"
  unfolding test_tag_def by (simp add: min_def)

lemma test_prims_sizes_ok: "sizes_ok test_prims"
  by (simp add: sizes_ok_def test_prims_def)

lemma test_prims_box_ok: "box_ok test_prims"
  by (simp add: box_ok_def test_prims_def)

lemma test_prims_keypair: "keypair test_prims sk (take 32 sk)"
  by (simp add: keypair_def test_prims_def)

theorem roundtrip_witness:
  "sizes_ok test_prims \<and> box_ok test_prims \<and> keypair test_prims K64 (take 32 K64)
   \<and> go_bind (SealWholeAttachment test_prims [1, 2, 3] K32 K64 N16)
        (\<lambda>sealed. OpenWholeAttachment test_prims sealed K32 (take 32 K64) N16)
      = Return ([1, 2, 3], None)"
  using roundtrip [OF test_prims_sizes_ok test_prims_box_ok test_prims_keypair [of K64],
      where plaintext = "[1, 2, 3]" and encKey = K32 and nonce = N16]
  by (simp add: test_prims_sizes_ok test_prims_box_ok test_prims_keypair)

section \<open>The sealed size\<close>

lemma sdiv_nonneg: "0 \<le> a \<Longrightarrow> 0 < b \<Longrightarrow> (a::int) sdiv b = a div b"
  by (cases "a = 0") (simp_all add: signed_divide_int_def)

lemma smod_nonneg: "0 \<le> a \<Longrightarrow> 0 < b \<Longrightarrow> (a::int) smod b = a mod b"
  by (cases "a = 0") (simp_all add: signed_modulo_int_def)

lemma go_int_id: "- (2 ^ 63) \<le> x \<Longrightarrow> x < 2 ^ 63 \<Longrightarrow> go_int x = x"
  unfolding go_int_def by (rule signed_take_bit_int_eq_self)

lemma getPacketLen_small: "0 \<le> k \<Longrightarrow> k \<le> 1048576 \<Longrightarrow> getPacketLen k = k + 85"
  unfolding getPacketLen_def
  by (subst go_int_id) (simp_all add: Overhead_def SignatureSize_def Bin32Overhead_def)

lemma GetSealedSize_exact:
  assumes "0 \<le> L" and "(L div 2 ^ 20) * 1048661 + ((L mod 2 ^ 20) + 64 + 16 + 5) < 2 ^ 63"
  shows "GetSealedSize L = (L div 2 ^ 20) * 1048661 + ((L mod 2 ^ 20) + 64 + 16 + 5)"
proof -
  have d: "L sdiv 1048576 = L div 1048576" and m: "L smod 1048576 = L mod 1048576"
    using assms(1) by (simp_all add: sdiv_nonneg smod_nonneg)
  have q: "0 \<le> L div 1048576" using assms(1) by simp
  have r: "0 \<le> L mod 1048576" "L mod 1048576 \<le> 1048576"
    by (simp_all add: less_imp_le)
  have a: "go_int (L div 1048576 * 1048661) = L div 1048576 * 1048661"
    using assms(2) q r by (intro go_int_id) simp_all
  have b: "go_int (L div 1048576 * 1048661 + (L mod 1048576 + 85))
           = L div 1048576 * 1048661 + (L mod 1048576 + 85)"
    using assms(2) q r by (intro go_int_id) simp_all
  show ?thesis
    unfolding GetSealedSize_def Let_def PlaintextChunkLength_def
    by (simp add: d m getPacketLen_small r a b)
qed

lemma GetSealedSize_go:
  "GetSealedSize L =
   go_int ((L sdiv 2 ^ 20) * 1048661 + ((L smod 2 ^ 20) + 64 + 16 + 5))"
proof -
  have p: "getPacketLen 1048576 = 1048661"
    using getPacketLen_small [of 1048576] by simp
  have "go_int (go_int (L sdiv 1048576 * 1048661) + go_int (L smod 1048576 + 85))
        = go_int (L sdiv 1048576 * 1048661 + (L smod 1048576 + 85))"
    unfolding go_int_def by (rule signed_take_bit_add)
  moreover have "getPacketLen (L smod 1048576) = go_int (L smod 1048576 + 85)"
    by (simp add: getPacketLen_def Overhead_def SignatureSize_def Bin32Overhead_def add.assoc)
  ultimately show ?thesis
    unfolding GetSealedSize_def Let_def PlaintextChunkLength_def
    by (simp add: p add.assoc)
qed

lemma length_SealWholeAttachment:
  assumes "sizes_ok P"
  shows "\<exists>sealed. SealWholeAttachment P plaintext encKey signKey nonce = Return sealed
           \<and> length sealed = (length plaintext div 2 ^ 20) * 1048661
                              + ((length plaintext mod 2 ^ 20) + 64 + 16 + 5)"
proof -
  let ?q = "length plaintext div PlaintextChunkLength"
  have "length plaintext - ?q * PlaintextChunkLength = length plaintext mod PlaintextChunkLength"
    by (simp add: minus_div_mult_eq_mod)
  moreover have "length (full_packets P encKey signKey nonce 0 ?q plaintext) = ?q * PacketLength"
    using assms by (rule length_full_packets) simp
  ultimately show ?thesis
    by (simp add: SealWholeAttachment_eq [OF assms] length_packet_bytes [OF assms]
        PacketLength_eq) (simp add: PlaintextChunkLength_def)
qed

lemma final_packet_SealWholeAttachment:
  assumes "sizes_ok P" and "length plaintext mod 2 ^ 20 = 0"
  shows "\<exists>sealed pk. SealWholeAttachment P plaintext encKey signKey nonce = Return sealed
           \<and> sealPacket P [] (of_nat (length plaintext div 2 ^ 20)) encKey signKey nonce
               = Return pk
           \<and> length pk = 85 \<and> drop (length sealed - 85) sealed = pk"
proof -
  let ?q = "length plaintext div PlaintextChunkLength"
  let ?pk = "packet_bytes P [] (of_nat ?q) encKey signKey nonce"
  have "length plaintext mod PlaintextChunkLength = 0"
    using assms(2) by (simp add: PlaintextChunkLength_def)
  then have "?q * PlaintextChunkLength = length plaintext"
    by (simp add: mod_eq_0_iff_dvd)
  then have s: "SealWholeAttachment P plaintext encKey signKey nonce
        = Return (full_packets P encKey signKey nonce 0 ?q plaintext @ ?pk)"
    by (simp add: SealWholeAttachment_eq [OF assms(1)])
  have l: "length ?pk = 85" by (simp add: length_packet_bytes [OF assms(1)])
  have sp: "sealPacket P [] (of_nat ?q) encKey signKey nonce = Return ?pk"
    using assms(1) by (rule sealPacket_eq) (simp add: MaxUint32_def)
  show ?thesis
    using l sp by (simp add: s) (simp add: PlaintextChunkLength_def)
qed


text \<open>
  Claim C3 (size determinism). Sealing returns; its output has
  \<open>(L / 2^20) * 1048661 + ((L mod 2^20) + 64 + 16 + 5)\<close> bytes for a plaintext of \<open>L\<close> bytes,
  which is \<open>GetSealedSize L\<close> whenever the output length is an \<open>int\<close>; a plaintext whose length is
  a multiple of \<open>2^20\<close> ends in an 85-byte packet sealing the empty chunk. \<open>GetSealedSize\<close>
  computes that formula in Go's arithmetic for every argument, and in exact arithmetic for a
  length whose sealed size is an \<open>int\<close>.
\<close>

theorem sealed_size:
  assumes "sizes_ok P"
  shows "(\<exists>sealed. SealWholeAttachment P plaintext encKey signKey nonce = Return sealed
           \<and> length sealed = (length plaintext div 2 ^ 20) * 1048661
                              + ((length plaintext mod 2 ^ 20) + 64 + 16 + 5)
           \<and> (int (length sealed) < 2 ^ 63
                \<longrightarrow> int (length sealed) = GetSealedSize (int (length plaintext)))
           \<and> (length plaintext mod 2 ^ 20 = 0
                \<longrightarrow> (\<exists>pk. sealPacket P [] (of_nat (length plaintext div 2 ^ 20)) encKey signKey
                             nonce = Return pk
                          \<and> length pk = 85 \<and> drop (length sealed - 85) sealed = pk)))
         \<and> GetSealedSize L = go_int ((L sdiv 2 ^ 20) * 1048661 + ((L smod 2 ^ 20) + 64 + 16 + 5))
         \<and> (0 \<le> L \<longrightarrow> (L div 2 ^ 20) * 1048661 + ((L mod 2 ^ 20) + 64 + 16 + 5) < 2 ^ 63
              \<longrightarrow> GetSealedSize L = (L div 2 ^ 20) * 1048661 + ((L mod 2 ^ 20) + 64 + 16 + 5))"
proof (intro conjI impI)
  obtain sealed where s: "SealWholeAttachment P plaintext encKey signKey nonce = Return sealed"
    and l: "length sealed = (length plaintext div 2 ^ 20) * 1048661
                              + ((length plaintext mod 2 ^ 20) + 64 + 16 + 5)"
    using length_SealWholeAttachment [OF assms] by blast
  have i: "int (length sealed) = (int (length plaintext) div 2 ^ 20) * 1048661
             + ((int (length plaintext) mod 2 ^ 20) + 64 + 16 + 5)"
    unfolding l by (simp add: zdiv_int zmod_int)
  have g: "int (length sealed) = GetSealedSize (int (length plaintext))"
    if "int (length sealed) < 2 ^ 63"
    using GetSealedSize_exact [of "int (length plaintext)"] that unfolding i by simp
  have f: "\<exists>pk. sealPacket P [] (of_nat (length plaintext div 2 ^ 20)) encKey signKey nonce
                 = Return pk \<and> length pk = 85 \<and> drop (length sealed - 85) sealed = pk"
    if "length plaintext mod 2 ^ 20 = 0"
    using final_packet_SealWholeAttachment [OF assms that, of encKey signKey nonce] s by auto
  show "\<exists>sealed. SealWholeAttachment P plaintext encKey signKey nonce = Return sealed
           \<and> length sealed = (length plaintext div 2 ^ 20) * 1048661
                              + ((length plaintext mod 2 ^ 20) + 64 + 16 + 5)
           \<and> (int (length sealed) < 2 ^ 63
                \<longrightarrow> int (length sealed) = GetSealedSize (int (length plaintext)))
           \<and> (length plaintext mod 2 ^ 20 = 0
                \<longrightarrow> (\<exists>pk. sealPacket P [] (of_nat (length plaintext div 2 ^ 20)) encKey signKey
                             nonce = Return pk
                          \<and> length pk = 85 \<and> drop (length sealed - 85) sealed = pk))"
  proof (rule exI [of _ sealed], intro conjI impI)
    show "SealWholeAttachment P plaintext encKey signKey nonce = Return sealed" by (fact s)
    show "length sealed = (length plaintext div 2 ^ 20) * 1048661
                              + ((length plaintext mod 2 ^ 20) + 64 + 16 + 5)" by (fact l)
    show "int (length sealed) = GetSealedSize (int (length plaintext))"
      if "int (length sealed) < 2 ^ 63" using that by (rule g)
    show "\<exists>pk. sealPacket P [] (of_nat (length plaintext div 2 ^ 20)) encKey signKey nonce
                 = Return pk \<and> length pk = 85 \<and> drop (length sealed - 85) sealed = pk"
      if "length plaintext mod 2 ^ 20 = 0" using that by (rule f)
  qed
next
  show "GetSealedSize L = go_int ((L sdiv 2 ^ 20) * 1048661 + ((L smod 2 ^ 20) + 64 + 16 + 5))"
    by (rule GetSealedSize_go)
next
  assume "0 \<le> L" and "(L div 2 ^ 20) * 1048661 + ((L mod 2 ^ 20) + 64 + 16 + 5) < 2 ^ 63"
  then show "GetSealedSize L = (L div 2 ^ 20) * 1048661 + ((L mod 2 ^ 20) + 64 + 16 + 5)"
    by (rule GetSealedSize_exact)
qed

theorem sealed_size_witness:
  "sizes_ok test_prims
   \<and> (\<exists>sealed. SealWholeAttachment test_prims [] K32 K64 N16 = Return sealed
         \<and> length sealed = 85
         \<and> int (length sealed) = GetSealedSize 0
         \<and> (\<exists>pk. sealPacket test_prims [] 0 K32 K64 N16 = Return pk
               \<and> length pk = 85 \<and> drop (length sealed - 85) sealed = pk))
   \<and> GetSealedSize 0 = 85"
  using sealed_size [OF test_prims_sizes_ok, of "[]" K32 K64 N16 0]
  by (auto simp add: test_prims_sizes_ok)


section \<open>The empty plaintext and a second \<open>Finish\<close>\<close>

lemma PutUint32_80: "PutUint32 80 = [0x00, 0x00, 0x00, 0x50]"
  by (simp add: PutUint32_def)

lemma sealOnePacket_Return:
  assumes "sealOnePacket P e n = Return (packet, e')"
  shows "n \<le> length (e_buf e)"
    and "e' = e\<lparr>e_buf := drop n (e_buf e), e_chunkNum := e_chunkNum e + 1\<rparr>"
    and "sealPacket P (take n (e_buf e)) (e_chunkNum e) (e_encKey e) (e_signKey e) (e_nonce e)
         = Return packet"
  using assms
  by (auto simp: sealOnePacket_def go_bind_def go_slice_def split: if_splits go.splits)



lemma ed_prims_keypair:
  "length seed = 32 \<Longrightarrow> keypair ed_prims (seed @ derive_pk seed) (derive_pk seed)"
  by (simp add: keypair_def ed_prims_def derive_pk_def)








text \<open>
  Claim C10 (no single-use check). When \<open>Finish\<close> has returned, the buffer is empty and the
  chunk number is one higher; a second \<open>Finish\<close> returns too, with the packet that \<open>sealPacket\<close>
  makes of the empty chunk at that next chunk number: 85 bytes, with the header of an 80-byte
  box, that open to the empty chunk at that chunk number.
\<close>

theorem finish_twice:
  assumes "sizes_ok P" and "Encoder_Finish P e = Return (packet, e')"
  shows "e_buf e' = [] \<and> e_chunkNum e' = e_chunkNum e + 1
         \<and> (\<exists>packet2 e''. Encoder_Finish P e' = Return (packet2, e'')
               \<and> sealPacket P [] (e_chunkNum e + 1) (e_encKey e) (e_signKey e) (e_nonce e)
                   = Return packet2
               \<and> length packet2 = 85
               \<and> take 5 packet2 = [0xC6, 0x00, 0x00, 0x00, 0x50]
               \<and> (box_ok P \<longrightarrow> keypair P (e_signKey e) verifyKey
                    \<longrightarrow> openPacket P packet2 (e_chunkNum e + 1) (e_encKey e) verifyKey (e_nonce e)
                        = Return ([], None)))"
proof -
  let ?pk = "packet_bytes P [] (e_chunkNum e + 1) (e_encKey e) (e_signKey e) (e_nonce e)"
  from assms(2) have s: "sealOnePacket P e (length (e_buf e)) = Return (packet, e')"
    by (simp add: Encoder_Finish_def split: if_splits)
  have e': "e' = e\<lparr>e_buf := [], e_chunkNum := e_chunkNum e + 1\<rparr>"
    using sealOnePacket_Return(2) [OF s] by simp
  have f: "Encoder_Finish P e' = Return (?pk, e'\<lparr>e_buf := [], e_chunkNum := e_chunkNum e' + 1\<rparr>)"
    using Encoder_Finish_eq [OF assms(1), of e'] CH_pos by (simp add: e')
  have sp: "sealPacket P [] (e_chunkNum e + 1) (e_encKey e) (e_signKey e) (e_nonce e) = Return ?pk"
    using assms(1) by (rule sealPacket_eq) (simp add: MaxUint32_def)
  have op: "openPacket P ?pk (e_chunkNum e + 1) (e_encKey e) verifyKey (e_nonce e)
            = Return ([], None)"
    if "box_ok P" and "keypair P (e_signKey e) verifyKey"
    using assms(1) that by (rule openPacket_packet_bytes) simp
  show ?thesis
    using f sp op
    by (simp add: e' length_packet_bytes [OF assms(1)] take5_packet_bytes [OF assms(1)]
        PutUint32_80)
qed

theorem finish_twice_witness:
  "sizes_ok test_prims \<and> box_ok test_prims \<and> keypair test_prims K64 (take 32 K64)
   \<and> (\<exists>packet e'. Encoder_Finish test_prims (NewAttachmentEncoder K32 K64 N16)
                    = Return (packet, e')
         \<and> e_buf e' = [] \<and> e_chunkNum e' = 1
         \<and> (\<exists>packet2 e''. Encoder_Finish test_prims e' = Return (packet2, e'')
               \<and> sealPacket test_prims [] 1 K32 K64 N16 = Return packet2
               \<and> length packet2 = 85
               \<and> take 5 packet2 = [0xC6, 0x00, 0x00, 0x00, 0x50]
               \<and> openPacket test_prims packet2 1 K32 (take 32 K64) N16 = Return ([], None)))"
proof -
  obtain packet e' where f:
    "Encoder_Finish test_prims (NewAttachmentEncoder K32 K64 N16) = Return (packet, e')"
    using Encoder_Finish_eq [OF test_prims_sizes_ok, of "NewAttachmentEncoder K32 K64 N16"]
      CH_pos
    by (simp add: NewAttachmentEncoder_def)
  have "e_buf e' = [] \<and> e_chunkNum e' = 1
         \<and> (\<exists>packet2 e''. Encoder_Finish test_prims e' = Return (packet2, e'')
               \<and> sealPacket test_prims [] 1 K32 K64 N16 = Return packet2
               \<and> length packet2 = 85
               \<and> take 5 packet2 = [0xC6, 0x00, 0x00, 0x00, 0x50]
               \<and> openPacket test_prims packet2 1 K32 (take 32 K64) N16 = Return ([], None))"
    using finish_twice [OF test_prims_sizes_ok f, of "take 32 K64"]
    by (simp add: test_prims_box_ok test_prims_keypair NewAttachmentEncoder_def)
  with f show ?thesis
    by (simp only: test_prims_sizes_ok test_prims_box_ok test_prims_keypair simp_thms) blast
qed

section \<open>Unpacking and opening arbitrary bytes\<close>

lemma Uint32_total: "4 \<le> length b \<Longrightarrow> \<exists>w. Uint32 b = Return w"
  by (auto simp add: Uint32_def go_index_def)

lemma unpackCiphertext_short:
  "length packet < 5 \<Longrightarrow>
   unpackCiphertext packet =
   Return ([], Some (NewAttachmentError ShortMessagePackObject
     ''can't unpack bin object less than length 5, found %d'' [int (length packet)]))"
  by (simp add: unpackCiphertext_def Bin32Overhead_def)

lemma unpackCiphertext_long:
  assumes "5 \<le> length packet"
  shows "\<exists>len. Uint32 (take 4 (drop 1 packet)) = Return len \<and>
     unpackCiphertext packet =
     (if packet ! 0 \<noteq> Bin32Tag then
        Return ([], Some (NewAttachmentError WrongMessagePackFormat
          ''expected tag byte 0xc6, found %#x'' [uint (packet ! 0)]))
      else if (ucast (len + 5) :: 64 word) \<noteq> of_nat (length packet) then
        Return ([], Some (NewAttachmentError WrongMessagePackLength
          ''encoded length doesn't match packet size: %d + 5 != %d''
          [uint len, int (length packet)]))
      else Return (drop 5 packet, None))"
proof -
  from assms have f: "\<not> length packet < Bin32Overhead" by (simp add: Bin32Overhead_def)
  from assms have i: "go_index packet 0 = Return (packet ! 0)" by (auto simp add: go_index_def)
  from assms have s: "go_slice packet 1 5 = Return (take 4 (drop 1 packet))"
    by (simp add: go_slice_def)
  from assms obtain w where w: "Uint32 (take 4 (drop 1 packet)) = Return w"
    using Uint32_total [of "take 4 (drop 1 packet)"] by auto
  from assms have r: "go_slice packet Bin32Overhead (length packet) = Return (drop 5 packet)"
    by (simp add: go_slice_def Bin32Overhead_def)
  have "unpackCiphertext packet =
     (if packet ! 0 \<noteq> Bin32Tag then
        Return ([], Some (NewAttachmentError WrongMessagePackFormat
          ''expected tag byte 0xc6, found %#x'' [uint (packet ! 0)]))
      else if (ucast (w + 5) :: 64 word) \<noteq> of_nat (length packet) then
        Return ([], Some (NewAttachmentError WrongMessagePackLength
          ''encoded length doesn't match packet size: %d + 5 != %d''
          [uint w, int (length packet)]))
      else Return (drop 5 packet, None))"
    by (simp only: unpackCiphertext_def f if_False i s w r go_bind_Return)
  with w show ?thesis by blast
qed

lemma unpackCiphertext_total:
  "\<exists>ciphertext err. unpackCiphertext packet = Return (ciphertext, err)"
proof (cases "length packet < 5")
  case True
  then show ?thesis by (simp add: unpackCiphertext_short)
next
  case False
  then have "5 \<le> length packet" by simp
  from unpackCiphertext_long [OF this] show ?thesis by auto
qed

lemma wrapped_sum_differs:
  fixes len :: "32 word"
  assumes "5 \<le> n" and "n < 2 ^ 32"
  shows "unat (len + 5) \<noteq> n \<longleftrightarrow> unat len + 5 \<noteq> n"
proof (cases "unat len + 5 < 2 ^ 32")
  case True
  then have "unat (len + 5) = unat len + 5"
    by (simp add: unat_word_ariths)
  then show ?thesis by simp
next
  case False
  have b: "unat len < 2 ^ 32" using unsigned_less [of len, where ?'a = nat] by simp
  have "unat (len + 5) = (unat len + 5) mod 2 ^ 32"
    by (simp add: unat_word_ariths)
  also have "\<dots> = unat len + 5 - 2 ^ 32"
    using False b by (simp add: mod_if)
  finally have "unat (len + 5) < 5" using b by simp
  with assms False show ?thesis by simp
qed

lemma unpack_length_check_in_range:
  assumes "5 \<le> length packet" and "packet ! 0 = 0xC6" and "length packet < 2 ^ 32"
  shows "\<exists>len. Uint32 (take 4 (drop 1 packet)) = Return len \<and>
           ((\<exists>e. unpackCiphertext packet = Return ([], Some e) \<and> Type e = WrongMessagePackLength)
            \<longleftrightarrow> unat len + 5 \<noteq> length packet)"
proof -
  obtain len where l: "Uint32 (take 4 (drop 1 packet)) = Return len"
    and u: "unpackCiphertext packet =
     (if packet ! 0 \<noteq> Bin32Tag then
        Return ([], Some (NewAttachmentError WrongMessagePackFormat
          ''expected tag byte 0xc6, found %#x'' [uint (packet ! 0)]))
      else if (ucast (len + 5) :: 64 word) \<noteq> of_nat (length packet) then
        Return ([], Some (NewAttachmentError WrongMessagePackLength
          ''encoded length doesn't match packet size: %d + 5 != %d''
          [uint len, int (length packet)]))
      else Return (drop 5 packet, None))"
    using unpackCiphertext_long [OF assms(1)] by blast
  have "length packet < 2 ^ 64" using assms(3) by simp
  then have t: "((ucast (len + 5) :: 64 word) \<noteq> of_nat (length packet))
                \<longleftrightarrow> unat len + 5 \<noteq> length packet"
    using wrapped_sum_differs [OF assms(1,3), of len]
    by (simp only: ucast_eq_of_nat_iff)
  have "(\<exists>e. unpackCiphertext packet = Return ([], Some e) \<and> Type e = WrongMessagePackLength)
        \<longleftrightarrow> unat len + 5 \<noteq> length packet"
    unfolding u t using assms(2)
    by (simp add: Bin32Tag_def NewAttachmentError_def)
  with l show ?thesis by blast
qed

text \<open>
  Claim C6 (length check), at a packet of \<open>2^32 + 4\<close> bytes whose length field is
  \<open>0xFFFFFFFF\<close>: the field plus 5 is the packet's length, yet the sum wraps to 4 in \<open>uint32\<close>
  and \<open>unpackCiphertext\<close> returns \<open>WrongMessagePackLength\<close>.
\<close>

theorem unpack_length_wraps:
  "length ([0xC6, 0xFF, 0xFF, 0xFF, 0xFF] @ replicate 4294967295 (0 :: byte)) = 4294967295 + 5
   \<and> Uint32 [0xFF, 0xFF, 0xFF, 0xFF] = Return 4294967295
   \<and> unpackCiphertext ([0xC6, 0xFF, 0xFF, 0xFF, 0xFF] @ replicate 4294967295 0)
       = Return ([], Some (NewAttachmentError WrongMessagePackLength
           ''encoded length doesn't match packet size: %d + 5 != %d''
           [4294967295, 4294967300]))"
proof -
  let ?p = "[0xC6, 0xFF, 0xFF, 0xFF, 0xFF] @ replicate 4294967295 (0 :: byte)"
  have u: "Uint32 [0xFF, 0xFF, 0xFF, 0xFF] = Return 4294967295"
    by (simp add: Uint32_def go_index_def)
  have l: "5 \<le> length ?p" by simp
  have "take 4 (drop 1 ?p) = [0xFF, 0xFF, 0xFF, 0xFF]" by simp
  with unpackCiphertext_long [OF l] u show ?thesis
    by (simp add: Bin32Tag_def)
qed


lemma error_type_cases:
  "Type e \<in> {BadSecretbox, ShortSignature, BadSignature, ShortMessagePackObject,
              WrongMessagePackFormat, WrongMessagePackLength}"
  by (cases "Type e") simp_all

lemma unpackCiphertext_error_empty:
  "unpackCiphertext packet = Return (ciphertext, Some e) \<Longrightarrow> ciphertext = []"
proof (cases "length packet < 5")
  case True
  assume "unpackCiphertext packet = Return (ciphertext, Some e)"
  with True show ?thesis by (simp add: unpackCiphertext_short)
next
  case False
  assume a: "unpackCiphertext packet = Return (ciphertext, Some e)"
  from False have "5 \<le> length packet" by simp
  from unpackCiphertext_long [OF this] a show ?thesis
    by (auto split: if_splits)
qed

lemma openPacket_short_signature:
  assumes "unpackCiphertext packet = Return (ciphertext, None)"
    and "secretbox_Open P ciphertext (makeChunkNonce nonce chunkNum) encKey = Some signedChunk"
    and "length signedChunk < 64"
  shows "openPacket P packet chunkNum encKey verifyKey nonce =
         Return ([], Some (NewAttachmentError ShortSignature ''signature too short'' []))"
  using assms unfolding openPacket_def
  by (simp add: SignatureSize_def)

text \<open>
  Claim C9 (\<open>openPacket\<close> is total). For every byte string, chunk number, keys and nonce,
  \<open>openPacket\<close> returns: no index or slice expression goes out of bounds. It returns either a
  plaintext with no error, or no bytes with an error of one of the six types. A packet shorter
  than the 5-byte header is answered \<open>ShortMessagePackObject\<close> before the header is read, and a
  decrypted chunk shorter than 64 bytes is answered \<open>ShortSignature\<close> before the signature is
  split off.
\<close>

theorem openPacket_total:
  "(\<exists>plaintext err.
       openPacket P packet chunkNum encKey verifyKey nonce = Return (plaintext, err)
       \<and> (case err of None \<Rightarrow> True
           | Some e \<Rightarrow> plaintext = []
               \<and> Type e \<in> {BadSecretbox, ShortSignature, BadSignature, ShortMessagePackObject,
                             WrongMessagePackFormat, WrongMessagePackLength}))
   \<and> (length short < 5 \<longrightarrow>
        (\<exists>e. openPacket P short chunkNum encKey verifyKey nonce = Return ([], Some e)
              \<and> Type e = ShortMessagePackObject))
   \<and> (unpackCiphertext framed = Return (ciphertext, None) \<longrightarrow>
        secretbox_Open P ciphertext (makeChunkNonce nonce chunkNum) encKey = Some signedChunk \<longrightarrow>
        length signedChunk < 64 \<longrightarrow>
        (\<exists>e. openPacket P framed chunkNum encKey verifyKey nonce = Return ([], Some e)
              \<and> Type e = ShortSignature))"
proof (intro conjI impI)
  obtain c uerr where u: "unpackCiphertext packet = Return (c, uerr)"
    using unpackCiphertext_total by blast
  show "\<exists>plaintext err.
       openPacket P packet chunkNum encKey verifyKey nonce = Return (plaintext, err)
       \<and> (case err of None \<Rightarrow> True
           | Some e \<Rightarrow> plaintext = []
               \<and> Type e \<in> {BadSecretbox, ShortSignature, BadSignature, ShortMessagePackObject,
                             WrongMessagePackFormat, WrongMessagePackLength})"
  proof -
    have "\<exists>plaintext err.
       openPacket P packet chunkNum encKey verifyKey nonce = Return (plaintext, err)
       \<and> (err \<noteq> None \<longrightarrow> plaintext = [])"
      unfolding openPacket_def
      by (simp add: u go_slice_def Let_def split: option.split)
    then obtain plaintext err
      where o: "openPacket P packet chunkNum encKey verifyKey nonce = Return (plaintext, err)"
        and n: "err \<noteq> None \<longrightarrow> plaintext = []" by blast
    show ?thesis
    proof (cases err)
      case None
      with o show ?thesis by simp
    next
      case (Some e)
      with o n error_type_cases [of e] show ?thesis by simp
    qed
  qed
next
  assume "length short < 5"
  then show "\<exists>e. openPacket P short chunkNum encKey verifyKey nonce = Return ([], Some e)
              \<and> Type e = ShortMessagePackObject"
    by (simp add: openPacket_def unpackCiphertext_short NewAttachmentError_def)
next
  assume "unpackCiphertext framed = Return (ciphertext, None)"
    and "secretbox_Open P ciphertext (makeChunkNonce nonce chunkNum) encKey = Some signedChunk"
    and "length signedChunk < 64"
  then show "\<exists>e. openPacket P framed chunkNum encKey verifyKey nonce = Return ([], Some e)
              \<and> Type e = ShortSignature"
    by (simp add: openPacket_short_signature NewAttachmentError_def)
qed


theorem openPacket_total_witness:
  "length ([] :: bytes) < 5
   \<and> unpackCiphertext (0xc6 # PutUint32 16 @ test_tag (makeChunkNonce N16 0) K32)
       = Return (test_tag (makeChunkNonce N16 0) K32, None)
   \<and> secretbox_Open test_prims (test_tag (makeChunkNonce N16 0) K32) (makeChunkNonce N16 0) K32
       = Some []
   \<and> (\<exists>e. openPacket test_prims [] 0 K32 (take 32 K64) N16 = Return ([], Some e)
            \<and> Type e = ShortMessagePackObject)
   \<and> (\<exists>e. openPacket test_prims (0xc6 # PutUint32 16 @ test_tag (makeChunkNonce N16 0) K32)
                0 K32 (take 32 K64) N16 = Return ([], Some e)
            \<and> Type e = ShortSignature)"
proof -
  let ?tag = "test_tag (makeChunkNonce N16 0) K32"
  have u: "unpackCiphertext (0xc6 # PutUint32 16 @ ?tag) = Return (?tag, None)"
    using unpackCiphertext_packed [of ?tag] by simp
  have o: "secretbox_Open test_prims ?tag (makeChunkNonce N16 0) K32 = Some []"
    by (simp add: test_prims_def)
  show ?thesis
    using openPacket_total [of test_prims "[]" 0 K32 "take 32 K64" N16 "[]"
        "0xc6 # PutUint32 16 @ ?tag" ?tag "[]"] u o
    by simp
qed

section \<open>The signature input\<close>

lemma digit_step:
  fixes x :: nat
  shows "x div 2 ^ k = (x div 2 ^ (k + 8)) * 256 + (x div 2 ^ k) mod 256"
proof -
  have "x div 2 ^ (k + 8) = (x div 2 ^ k) div 256"
    by (simp add: power_add div_mult2_eq)
  then show ?thesis by simp
qed

lemma digits8:
  fixes x :: nat
  assumes "x < 2 ^ 64"
  shows "(x div 2 ^ 56) mod 256 * 2 ^ 56 + (x div 2 ^ 48) mod 256 * 2 ^ 48
       + (x div 2 ^ 40) mod 256 * 2 ^ 40 + (x div 2 ^ 32) mod 256 * 2 ^ 32
       + (x div 2 ^ 24) mod 256 * 2 ^ 24 + (x div 2 ^ 16) mod 256 * 2 ^ 16
       + (x div 2 ^ 8) mod 256 * 2 ^ 8 + x mod 256 = x"
proof -
  define q where "q k = x div 2 ^ k" for k
  define r where "r k = (x div 2 ^ k) mod 256" for k
  have st: "q k = q (k + 8) * 256 + r k" for k
    unfolding q_def r_def by (rule digit_step)
  have "x div 2 ^ 56 < 256" using assms by (simp add: less_mult_imp_div_less)
  then have a: "r 56 = q 56" unfolding q_def r_def by simp
  have z: "q 0 = x" by (simp add: q_def)
  have r0: "r 0 = x mod 256" by (simp add: r_def)
  have "r 56 * 2 ^ 56 + r 48 * 2 ^ 48 + r 40 * 2 ^ 40 + r 32 * 2 ^ 32 + r 24 * 2 ^ 24
        + r 16 * 2 ^ 16 + r 8 * 2 ^ 8 + r 0 = x"
    using st [of 48] st [of 40] st [of 32] st [of 24] st [of 16] st [of 8] st [of 0] a z
    by simp
  then show ?thesis unfolding r_def by simp
qed

lemma unat_drop_bit_div:
  fixes n :: "64 word"
  shows "unat (drop_bit k n) = unat n div 2 ^ k"
  by (subst unat_drop_bit_eq) (rule drop_bit_eq_div)

lemma unat_byte0:
  fixes n :: "64 word"
  shows "unat (ucast n :: 8 word) = unat n mod 256"
  by (simp add: unsigned_ucast_eq take_bit_eq_mod)

lemma PutUint64_big_endian: "foldl (\<lambda>a b. a * 256 + unat b) 0 (PutUint64 n) = unat n"
proof -
  have "unat n < 2 ^ 64" using unsigned_less [of n, where ?'a = nat] by simp
  from digits8 [OF this]
  have d: "foldl (\<lambda>a b. a * 256 + b) 0
             [(unat n div 2 ^ 56) mod 256, (unat n div 2 ^ 48) mod 256,
              (unat n div 2 ^ 40) mod 256, (unat n div 2 ^ 32) mod 256,
              (unat n div 2 ^ 24) mod 256, (unat n div 2 ^ 16) mod 256,
              (unat n div 2 ^ 8) mod 256, unat n mod 256] = unat n"
    by (simp add: algebra_simps)
  have m: "map unat (PutUint64 n) =
             [(unat n div 2 ^ 56) mod 256, (unat n div 2 ^ 48) mod 256,
              (unat n div 2 ^ 40) mod 256, (unat n div 2 ^ 32) mod 256,
              (unat n div 2 ^ 24) mod 256, (unat n div 2 ^ 16) mod 256,
              (unat n div 2 ^ 8) mod 256, unat n mod 256]"
    by (simp only: PutUint64_def list.map unat_byte0 unat_drop_bit_div)
  have "foldl (\<lambda>a b. a * 256 + unat b) 0 (PutUint64 n)
        = foldl (\<lambda>a b. a * 256 + b) 0 (map unat (PutUint64 n))"
    by (simp only: foldl_map)
  then show ?thesis by (simp only: m d)
qed

lemma length_makeSignatureInput:
  "length (makeSignatureInput P plaintext encKey chunkNonce)
   = 24 + length encKey + length chunkNonce + length (sha512_Sum512 P plaintext)"
  by (simp add: makeSignatureInput_def length_SignaturePrefix)

lemma SignaturePrefix_bytes:
  "bytes_of SignaturePrefix = bytes_of ''keybase chat attachment'' @ [0x00]"
  by (simp add: SignaturePrefix_def bytes_of_def)

text \<open>
  Claim C2 (signature input), as the code has it. The signed and verified byte string is the
  23 ASCII bytes of \<open>keybase chat attachment\<close>, one \<open>0x00\<close> byte, the 32-byte key, the 24-byte
  chunk nonce (the 16-byte stream nonce, then the chunk number as 8 bytes, most significant
  first) and the 64-byte hash: 144 bytes.
\<close>

theorem signature_input:
  assumes "length encKey = 32" and "length attachmentNonce = 16"
    and "length (sha512_Sum512 P plaintext) = 64"
  shows "makeSignatureInput P plaintext encKey (makeChunkNonce attachmentNonce n)
         = bytes_of ''keybase chat attachment'' @ [0x00] @ encKey
           @ (attachmentNonce @ PutUint64 n) @ sha512_Sum512 P plaintext
         \<and> length (bytes_of ''keybase chat attachment'') = 23
         \<and> length (attachmentNonce @ PutUint64 n) = 24
         \<and> foldl (\<lambda>a b. a * 256 + unat b) 0 (PutUint64 n) = unat n
         \<and> length (makeSignatureInput P plaintext encKey (makeChunkNonce attachmentNonce n))
             = 144"
proof (intro conjI)
  show "makeSignatureInput P plaintext encKey (makeChunkNonce attachmentNonce n)
         = bytes_of ''keybase chat attachment'' @ [0x00] @ encKey
           @ (attachmentNonce @ PutUint64 n) @ sha512_Sum512 P plaintext"
    by (simp add: makeSignatureInput_def makeChunkNonce_eq [OF assms(2)] SignaturePrefix_bytes)
  show "length (bytes_of ''keybase chat attachment'') = 23"
    by (simp add: bytes_of_def)
  show "length (attachmentNonce @ PutUint64 n) = 24"
    using assms(2) by simp
  show "foldl (\<lambda>a b. a * 256 + unat b) 0 (PutUint64 n) = unat n"
    by (rule PutUint64_big_endian)
  show "length (makeSignatureInput P plaintext encKey (makeChunkNonce attachmentNonce n)) = 144"
    using assms by (simp add: length_makeSignatureInput)
qed

theorem signature_input_witness:
  "length K32 = 32 \<and> length N16 = 16 \<and> length (sha512_Sum512 test_prims [1, 2, 3]) = 64
   \<and> makeSignatureInput test_prims [1, 2, 3] K32 (makeChunkNonce N16 7)
       = bytes_of ''keybase chat attachment'' @ [0x00] @ K32
         @ (N16 @ [0, 0, 0, 0, 0, 0, 0, 7]) @ sha512_Sum512 test_prims [1, 2, 3]
   \<and> length (makeSignatureInput test_prims [1, 2, 3] K32 (makeChunkNonce N16 7)) = 144"
proof -
  have a: "length K32 = 32" and b: "length N16 = 16"
    and c: "length (sha512_Sum512 test_prims [1, 2, 3]) = 64"
    by (simp_all add: K32_def N16_def test_prims_def)
  have p: "PutUint64 7 = [0, 0, 0, 0, 0, 0, 0, 7]" by (simp add: PutUint64_def)
  from signature_input [OF a b c, of 7] a b c show ?thesis
    by (simp only: p) simp
qed

text \<open>
  Claim C2 as stated gives the length as 133 bytes, with a 24-byte text before the \<open>0x00\<close>
  byte. At the empty chunk, the all-zero key and nonce and chunk number 0 the signed byte
  string has 144 bytes, and its text before the \<open>0x00\<close> byte has 23.
\<close>

theorem signature_input_length_counterexample:
  "length (makeSignatureInput test_prims [] K32 (makeChunkNonce N16 0)) = 144
   \<and> length (makeSignatureInput test_prims [] K32 (makeChunkNonce N16 0)) \<noteq> 133
   \<and> takeWhile (\<lambda>b. b \<noteq> 0) (makeSignatureInput test_prims [] K32 (makeChunkNonce N16 0))
       = bytes_of ''keybase chat attachment''
   \<and> length (bytes_of ''keybase chat attachment'') \<noteq> 24"
  by (simp add: length_makeSignatureInput K32_def test_prims_def makeSignatureInput_def
      SignaturePrefix_def bytes_of_def)

section \<open>Streaming in pieces\<close>

lemma go_bind_assoc: "go_bind (go_bind m f) g = go_bind m (\<lambda>x. go_bind (f x) g)"
  by (cases m) simp_all

lemma sealOnePacket_append:
  assumes "n \<le> length (e_buf e)"
  shows "sealOnePacket P (e\<lparr>e_buf := e_buf e @ q\<rparr>) n =
         go_bind (sealOnePacket P e n) (\<lambda>(packet, e'). Return (packet, e'\<lparr>e_buf := e_buf e' @ q\<rparr>))"
proof (cases "sealPacket P (take n (e_buf e)) (e_chunkNum e) (e_encKey e) (e_signKey e) (e_nonce e)")
  case (Panic s)
  with assms show ?thesis by (simp add: sealOnePacket_def go_slice_def)
next
  case (Return packet)
  with assms show ?thesis by (simp add: sealOnePacket_def go_slice_def)
qed

lemma Encoder_Write_loop_append:
  "Encoder_Write_loop P (e\<lparr>e_buf := e_buf e @ q\<rparr>) acc =
   go_bind (Encoder_Write_loop P e acc)
     (\<lambda>(out, e'). Encoder_Write_loop P (e'\<lparr>e_buf := e_buf e' @ q\<rparr>) out)"
proof (induction P e acc rule: Encoder_Write_loop.induct)
  case (1 P e acc)
  show ?case
  proof (cases "PlaintextChunkLength \<le> length (e_buf e)")
    case False
    then show ?thesis
      by (subst (2) Encoder_Write_loop.simps) simp
  next
    case True
    then have big: "PlaintextChunkLength \<le> length (e_buf (e\<lparr>e_buf := e_buf e @ q\<rparr>))" by simp
    show ?thesis
    proof (cases "sealOnePacket P e PlaintextChunkLength")
      case (Panic s)
      with True big show ?thesis
        by (subst Encoder_Write_loop.simps, subst (2) Encoder_Write_loop.simps)
          (simp add: sealOnePacket_append)
    next
      case (Return x)
      obtain packet e1 where x: "x = (packet, e1)" by (cases x)
      note IH = "1.IH" [OF True Return x [symmetric]]
      from True big Return x IH show ?thesis
        by (subst Encoder_Write_loop.simps, subst (2) Encoder_Write_loop.simps)
          (simp add: sealOnePacket_append)
    qed
  qed
qed

lemma Encoder_Write_loop_acc:
  "Encoder_Write_loop P e (a @ acc) =
   go_bind (Encoder_Write_loop P e acc) (\<lambda>(out, e'). Return (a @ out, e'))"
proof (induction P e acc rule: Encoder_Write_loop.induct)
  case (1 P e acc)
  show ?case
  proof (cases "PlaintextChunkLength \<le> length (e_buf e)")
    case False
    then show ?thesis
      by (subst Encoder_Write_loop.simps, subst (2) Encoder_Write_loop.simps) simp
  next
    case True
    show ?thesis
    proof (cases "sealOnePacket P e PlaintextChunkLength")
      case (Panic s)
      with True show ?thesis
        by (subst Encoder_Write_loop.simps, subst (2) Encoder_Write_loop.simps) simp
    next
      case (Return x)
      obtain packet e1 where x: "x = (packet, e1)" by (cases x)
      note IH = "1.IH" [OF True Return x [symmetric]]
      from True Return x IH show ?thesis
        by (subst Encoder_Write_loop.simps, subst (2) Encoder_Write_loop.simps) simp
    qed
  qed
qed

lemma Encoder_Write_loop_acc_nil:
  "Encoder_Write_loop P e a =
   go_bind (Encoder_Write_loop P e []) (\<lambda>(out, e'). Return (a @ out, e'))"
  using Encoder_Write_loop_acc [of P e a "[]"] by (simp only: append_Nil2)

lemma Encoder_Write_loop_buf_small:
  "Encoder_Write_loop P e acc = Return (out, e') \<Longrightarrow> length (e_buf e') < PlaintextChunkLength"
proof (induction P e acc rule: Encoder_Write_loop.induct)
  case (1 P e acc)
  show ?case
  proof (cases "PlaintextChunkLength \<le> length (e_buf e)")
    case False
    with "1.prems" show ?thesis
      by (subst (asm) Encoder_Write_loop.simps) auto
  next
    case True
    show ?thesis
    proof (cases "sealOnePacket P e PlaintextChunkLength")
      case (Panic s)
      with True "1.prems" show ?thesis
        by (subst (asm) Encoder_Write_loop.simps) simp
    next
      case (Return x)
      obtain packet e1 where x: "x = (packet, e1)" by (cases x)
      from True Return x "1.prems"
      have "Encoder_Write_loop P e1 (acc @ packet) = Return (out, e')"
        by (subst (asm) Encoder_Write_loop.simps) simp
      then show ?thesis
        by (rule "1.IH" [OF True Return x [symmetric]])
    qed
  qed
qed

lemma Encoder_Write_append:
  "Encoder_Write P e (p @ q) =
   go_bind (Encoder_Write P e p) (\<lambda>(out1, e1).
     go_bind (Encoder_Write P e1 q) (\<lambda>(out2, e2). Return (out1 @ out2, e2)))"
proof -
  let ?ep = "e\<lparr>e_buf := e_buf e @ p\<rparr>"
  have "Encoder_Write P e (p @ q) = Encoder_Write_loop P (?ep\<lparr>e_buf := e_buf ?ep @ q\<rparr>) []"
    by (simp add: Encoder_Write_def)
  also have "\<dots> = go_bind (Encoder_Write_loop P ?ep [])
     (\<lambda>(out, e'). Encoder_Write_loop P (e'\<lparr>e_buf := e_buf e' @ q\<rparr>) out)"
    by (rule Encoder_Write_loop_append)
  also have "\<dots> = go_bind (Encoder_Write_loop P ?ep [])
     (\<lambda>(out, e'). go_bind (Encoder_Write_loop P (e'\<lparr>e_buf := e_buf e' @ q\<rparr>) [])
         (\<lambda>(out2, e2). Return (out @ out2, e2)))"
  proof -
    have "(\<lambda>(out, e'). Encoder_Write_loop P (e'\<lparr>e_buf := e_buf e' @ q\<rparr>) out)
        = (\<lambda>(out, e'). go_bind (Encoder_Write_loop P (e'\<lparr>e_buf := e_buf e' @ q\<rparr>) [])
             (\<lambda>(out2, e2). Return (out @ out2, e2)))"
    proof (rule ext)
      fix x :: "bytes \<times> AttachmentEncoder"
      obtain out e' where x: "x = (out, e')" by (cases x)
      show "(case x of (out, e') \<Rightarrow> Encoder_Write_loop P (e'\<lparr>e_buf := e_buf e' @ q\<rparr>) out)
        = (case x of (out, e') \<Rightarrow>
             go_bind (Encoder_Write_loop P (e'\<lparr>e_buf := e_buf e' @ q\<rparr>) [])
               (\<lambda>(out2, e2). Return (out @ out2, e2)))"
        unfolding x prod.case by (rule Encoder_Write_loop_acc_nil)
    qed
    then show ?thesis by (simp only:)
  qed
  finally show ?thesis by (simp add: Encoder_Write_def)
qed

lemma Encoder_Write_nil:
  "length (e_buf e) < PlaintextChunkLength \<Longrightarrow> Encoder_Write P e [] = Return ([], e)"
  unfolding Encoder_Write_def
  by (subst Encoder_Write_loop.simps) simp


lemma Encoder_Write_buf_small:
  "Encoder_Write P e p = Return (out, e') \<Longrightarrow> length (e_buf e') < PlaintextChunkLength"
  unfolding Encoder_Write_def by (rule Encoder_Write_loop_buf_small)

lemma Encoder_feed_eq:
  "length (e_buf e) < PlaintextChunkLength \<Longrightarrow>
   Encoder_feed P e ps acc =
   go_bind (Encoder_Write P e (concat ps)) (\<lambda>(out, e').
     go_bind (Encoder_Finish P e') (\<lambda>(final, e''). Return (acc @ out @ final)))"
proof (induction ps arbitrary: e acc)
  case Nil
  then show ?case by (simp add: Encoder_Write_nil)
next
  case (Cons p ps)
  show ?case
  proof (cases "Encoder_Write P e p")
    case (Panic s)
    then show ?thesis by (simp add: Encoder_Write_append)
  next
    case (Return x)
    obtain out e1 where x: "x = (out, e1)" by (cases x)
    from Return x have "length (e_buf e1) < PlaintextChunkLength"
      by (auto dest: Encoder_Write_buf_small)
    from Cons.IH [OF this, of "acc @ out"] Return x show ?thesis
      by (simp add: Encoder_Write_append go_bind_assoc split_def)
  qed
qed


lemma openOnePacket_append:
  assumes "n \<le> length (d_buf d)"
  shows "openOnePacket P (d\<lparr>d_buf := d_buf d @ q\<rparr>) n =
         go_bind (openOnePacket P d n)
           (\<lambda>(plaintext, err, d'). Return (plaintext, err, d'\<lparr>d_buf := d_buf d' @ q\<rparr>))"
proof (cases "openPacket P (take n (d_buf d)) (d_chunkNum d) (d_encKey d) (d_verifyKey d)
                (d_nonce d)")
  case (Panic s)
  with assms show ?thesis by (simp add: openOnePacket_def go_slice_def)
next
  case (Return x)
  obtain plaintext err where x: "x = (plaintext, err)" by (cases x)
  from assms Return x show ?thesis
    by (cases err) (simp_all add: openOnePacket_def go_slice_def)
qed

lemma Decoder_Write_loop_append:
  "Decoder_Write_loop P (d\<lparr>d_buf := d_buf d @ q\<rparr>) acc =
   go_bind (Decoder_Write_loop P d acc) (\<lambda>(out, err, d').
     case err of
       Some e \<Rightarrow> Return ([], Some e, d'\<lparr>d_buf := d_buf d' @ q\<rparr>)
     | None \<Rightarrow> Decoder_Write_loop P (d'\<lparr>d_buf := d_buf d' @ q\<rparr>) out)"
proof (induction P d acc rule: Decoder_Write_loop.induct)
  case (1 P d acc)
  show ?case
  proof (cases "PacketLength \<le> length (d_buf d)")
    case False
    then show ?thesis
      by (subst (2) Decoder_Write_loop.simps) simp
  next
    case True
    then have big: "PacketLength \<le> length (d_buf (d\<lparr>d_buf := d_buf d @ q\<rparr>))" by simp
    show ?thesis
    proof (cases "openOnePacket P d PacketLength")
      case (Panic s)
      with True big show ?thesis
        by (subst Decoder_Write_loop.simps, subst (2) Decoder_Write_loop.simps)
          (simp add: openOnePacket_append)
    next
      case (Return x)
      obtain plaintext err d1 where x: "x = (plaintext, err, d1)" by (cases x)
      show ?thesis
      proof (cases err)
        case (Some e)
        with True big Return x show ?thesis
          by (subst Decoder_Write_loop.simps, subst (2) Decoder_Write_loop.simps)
            (simp add: openOnePacket_append)
      next
        case None
        note IH = "1.IH" [OF True Return x [symmetric] refl refl None]
        have eq: "d1\<lparr>d_err := None, d_buf := d_buf d1 @ q\<rparr>
                  = d1\<lparr>d_buf := d_buf d1 @ q, d_err := None\<rparr>" by simp
        from True big Return x None IH show ?thesis
          by (subst Decoder_Write_loop.simps, subst (2) Decoder_Write_loop.simps)
            (simp add: openOnePacket_append eq)
      qed
    qed
  qed
qed


lemma Decoder_Write_loop_acc:
  "Decoder_Write_loop P d (a @ acc) =
   go_bind (Decoder_Write_loop P d acc) (\<lambda>(out, err, d').
     case err of
       Some e \<Rightarrow> Return ([], Some e, d')
     | None \<Rightarrow> Return (a @ out, None, d'))"
proof (induction P d acc rule: Decoder_Write_loop.induct)
  case (1 P d acc)
  show ?case
  proof (cases "PacketLength \<le> length (d_buf d)")
    case False
    then show ?thesis
      by (subst Decoder_Write_loop.simps, subst (2) Decoder_Write_loop.simps) simp
  next
    case True
    show ?thesis
    proof (cases "openOnePacket P d PacketLength")
      case (Panic s)
      with True show ?thesis
        by (subst Decoder_Write_loop.simps, subst (2) Decoder_Write_loop.simps) simp
    next
      case (Return x)
      obtain plaintext err d1 where x: "x = (plaintext, err, d1)" by (cases x)
      show ?thesis
      proof (cases err)
        case (Some e)
        with True Return x show ?thesis
          by (subst Decoder_Write_loop.simps, subst (2) Decoder_Write_loop.simps) simp
      next
        case None
        note IH = "1.IH" [OF True Return x [symmetric] refl refl None]
        from True Return x None IH show ?thesis
          by (subst Decoder_Write_loop.simps, subst (2) Decoder_Write_loop.simps) simp
      qed
    qed
  qed
qed

lemma Decoder_Write_loop_acc_nil:
  "Decoder_Write_loop P d a =
   go_bind (Decoder_Write_loop P d []) (\<lambda>(out, err, d').
     case err of
       Some e \<Rightarrow> Return ([], Some e, d')
     | None \<Rightarrow> Return (a @ out, None, d'))"
  using Decoder_Write_loop_acc [of P d a "[]"] by (simp only: append_Nil2)

lemma Decoder_Write_loop_result:
  assumes "Decoder_Write_loop P d acc = Return (out, err, d')"
  shows "case err of
           Some e \<Rightarrow> out = [] \<and> d_err d' = Some e
         | None \<Rightarrow> length (d_buf d') < PacketLength \<and> (d_err d = None \<longrightarrow> d_err d' = None)"
  using assms
proof (induction P d acc rule: Decoder_Write_loop.induct)
  case (1 P d acc)
  show ?case
  proof (cases "PacketLength \<le> length (d_buf d)")
    case False
    with "1.prems" show ?thesis
      by (subst (asm) Decoder_Write_loop.simps) auto
  next
    case True
    show ?thesis
    proof (cases "openOnePacket P d PacketLength")
      case (Panic s)
      with True "1.prems" show ?thesis
        by (subst (asm) Decoder_Write_loop.simps) simp
    next
      case (Return x)
      obtain plaintext perr d1 where x: "x = (plaintext, perr, d1)" by (cases x)
      show ?thesis
      proof (cases perr)
        case (Some e)
        with True Return x "1.prems" show ?thesis
          by (subst (asm) Decoder_Write_loop.simps) auto
      next
        case None
        from True Return x None "1.prems"
        have "Decoder_Write_loop P (d1\<lparr>d_err := perr\<rparr>) (acc @ plaintext)
              = Return (out, err, d')"
          by (subst (asm) Decoder_Write_loop.simps) simp
        from "1.IH" [OF True Return x [symmetric] refl refl None this] None
        show ?thesis by (cases err) simp_all
      qed
    qed
  qed
qed


lemma Decoder_Write_None:
  assumes "d_err d = None" and "Decoder_Write P d c = Return (out, None, d')"
  shows "length (d_buf d') < PacketLength" and "d_err d' = None"
  using assms Decoder_Write_loop_result [of P "d\<lparr>d_buf := d_buf d @ c\<rparr>" "[]" out None d']
  by (simp_all add: Decoder_Write_def)

lemma Decoder_Write_append:
  assumes "d_err d = None"
  shows "Decoder_Write P d (p @ q) =
   go_bind (Decoder_Write P d p) (\<lambda>(out1, err, d1).
     case err of
       Some e \<Rightarrow> Return ([], Some e, d1\<lparr>d_buf := d_buf d1 @ q\<rparr>)
     | None \<Rightarrow>
         go_bind (Decoder_Write P d1 q) (\<lambda>(out2, err, d2).
           case err of
             Some e \<Rightarrow> Return ([], Some e, d2)
           | None \<Rightarrow> Return (out1 @ out2, None, d2)))"
proof -
  let ?dp = "d\<lparr>d_buf := d_buf d @ p\<rparr>"
  have a: "Decoder_Write P d (p @ q) =
     go_bind (Decoder_Write_loop P ?dp []) (\<lambda>(out, err, d').
       case err of
         Some e \<Rightarrow> Return ([], Some e, d'\<lparr>d_buf := d_buf d' @ q\<rparr>)
       | None \<Rightarrow> Decoder_Write_loop P (d'\<lparr>d_buf := d_buf d' @ q\<rparr>) out)"
    using Decoder_Write_loop_append [of P ?dp q "[]"] assms
    by (simp add: Decoder_Write_def)
  have w: "Decoder_Write P d p = Decoder_Write_loop P ?dp []"
    using assms by (simp add: Decoder_Write_def)
  show ?thesis
  proof (cases "Decoder_Write_loop P ?dp []")
    case (Panic s)
    then show ?thesis by (simp add: a w)
  next
    case (Return x)
    obtain out err d1 where x: "x = (out, err, d1)" by (cases x)
    show ?thesis
    proof (cases err)
      case (Some e)
      with Return x show ?thesis by (simp add: a w)
    next
      case None
      from Return x None have "d_err d1 = None"
        using Decoder_Write_loop_result [of P ?dp "[]" out None d1] assms by simp
      then have "Decoder_Write P d1 q = Decoder_Write_loop P (d1\<lparr>d_buf := d_buf d1 @ q\<rparr>) []"
        by (simp add: Decoder_Write_def)
      with Return x None show ?thesis
        by (simp add: a w) (rule Decoder_Write_loop_acc_nil)
    qed
  qed
qed

lemma Decoder_Write_nil:
  "d_err d = None \<Longrightarrow> length (d_buf d) < PacketLength \<Longrightarrow>
   Decoder_Write P d [] = Return ([], None, d)"
  unfolding Decoder_Write_def
  by (subst Decoder_Write_loop.simps) simp

lemma Decoder_feed_eq:
  "d_err d = None \<Longrightarrow> length (d_buf d) < PacketLength \<Longrightarrow>
   Decoder_feed P d cs acc =
   go_bind (Decoder_Write P d (concat cs)) (\<lambda>(out, err, d').
     case err of
       Some e \<Rightarrow> Return ([], Some e)
     | None \<Rightarrow>
         go_bind (Decoder_Finish P d') (\<lambda>(moreOutput, err, d'').
           case err of
             Some e \<Rightarrow> Return ([], Some e)
           | None \<Rightarrow> Return (acc @ out @ moreOutput, None)))"
proof (induction cs arbitrary: d acc)
  case Nil
  then show ?case by (simp add: Decoder_Write_nil cong: option.case_cong)
next
  case (Cons c cs)
  note app = Decoder_Write_append [OF Cons.prems(1), of P c "concat cs"]
  show ?case
  proof (cases "Decoder_Write P d c")
    case (Panic s)
    then show ?thesis by (simp add: app)
  next
    case (Return x)
    obtain out err d1 where x: "x = (out, err, d1)" by (cases x)
    show ?thesis
    proof (cases err)
      case (Some e)
      with Return x show ?thesis by (simp add: app)
    next
      case None
      from Return x None Cons.prems(1)
      have d1: "d_err d1 = None" "length (d_buf d1) < PacketLength"
        by (auto dest: Decoder_Write_None)
      show ?thesis
      proof (cases "Decoder_Write P d1 (concat cs)")
        case (Panic s)
        with Return x None Cons.IH [OF d1, of "acc @ out"] show ?thesis
          by (simp add: app)
      next
        case r2: (Return y)
        obtain out2 err2 d2 where y: "y = (out2, err2, d2)" by (cases y)
        from Return x None r2 y Cons.IH [OF d1, of "acc @ out"] show ?thesis
          by (cases err2) (simp_all add: app cong: option.case_cong)
      qed
    qed
  qed
qed

text \<open>
  Claim C4 (streaming equivalence). Feeding the pieces of any split of a plaintext to
  \<open>Write\<close> in order and appending what \<open>Finish\<close> returns is \<open>SealWholeAttachment\<close> of the whole
  plaintext. Feeding the pieces of any split of a byte string to the decoder's \<open>Write\<close> in
  order and appending what \<open>Finish\<close> returns is \<open>OpenWholeAttachment\<close> of the whole byte string:
  the same plaintext, or the same error. For the pieces of any split of a sealed plaintext that
  is the plaintext.
\<close>

theorem streaming_equivalence:
  "Encoder_feed P (NewAttachmentEncoder encKey signKey nonce) pieces []
     = SealWholeAttachment P (concat pieces) encKey signKey nonce
   \<and> Decoder_feed P (NewAttachmentDecoder encKey verifyKey nonce) cpieces []
     = OpenWholeAttachment P (concat cpieces) encKey verifyKey nonce
   \<and> (sizes_ok P \<longrightarrow> box_ok P \<longrightarrow> keypair P signKey verifyKey \<longrightarrow>
        SealWholeAttachment P plaintext encKey signKey nonce = Return (concat spieces) \<longrightarrow>
        Decoder_feed P (NewAttachmentDecoder encKey verifyKey nonce) spieces []
          = Return (plaintext, None))"
proof (intro conjI impI)
  have "length (e_buf (NewAttachmentEncoder encKey signKey nonce)) < PlaintextChunkLength"
    using CH_pos by (simp add: NewAttachmentEncoder_def)
  then show "Encoder_feed P (NewAttachmentEncoder encKey signKey nonce) pieces []
     = SealWholeAttachment P (concat pieces) encKey signKey nonce"
    by (simp add: Encoder_feed_eq SealWholeAttachment_def)
next
  have d: "d_err (NewAttachmentDecoder encKey verifyKey nonce) = None"
    "length (d_buf (NewAttachmentDecoder encKey verifyKey nonce)) < PacketLength"
    using CH_pos by (simp_all add: NewAttachmentDecoder_def PacketLength_eq)
  then show w: "Decoder_feed P (NewAttachmentDecoder encKey verifyKey nonce) cs []
     = OpenWholeAttachment P (concat cs) encKey verifyKey nonce" for cs
    by (simp add: Decoder_feed_eq OpenWholeAttachment_def cong: option.case_cong)
  assume ok: "sizes_ok P" "box_ok P" "keypair P signKey verifyKey"
    and s: "SealWholeAttachment P plaintext encKey signKey nonce = Return (concat spieces)"
  from s have "OpenWholeAttachment P (concat spieces) encKey verifyKey nonce
               = Return (plaintext, None)"
    using OpenWholeAttachment_sealed [OF ok, of encKey nonce plaintext]
    by (simp add: SealWholeAttachment_eq [OF ok(1)])
  then show "Decoder_feed P (NewAttachmentDecoder encKey verifyKey nonce) spieces []
          = Return (plaintext, None)"
    by (simp only: w)
qed

theorem streaming_equivalence_witness:
  "sizes_ok test_prims \<and> box_ok test_prims \<and> keypair test_prims K64 (take 32 K64)
   \<and> (\<exists>sealed. SealWholeAttachment test_prims [1, 2, 3] K32 K64 N16
                  = Return (concat [take 10 sealed, drop 10 sealed])
         \<and> length sealed = 88
         \<and> Encoder_feed test_prims (NewAttachmentEncoder K32 K64 N16) ([1] # [] # [2, 3] # []) []
             = Return sealed
         \<and> Decoder_feed test_prims (NewAttachmentDecoder K32 (take 32 K64) N16)
               [take 10 sealed, drop 10 sealed] [] = Return ([1, 2, 3], None))"
proof -
  let ?sealed = "packet_bytes test_prims [1, 2, 3] 0 K32 K64 N16"
  have s: "SealWholeAttachment test_prims [1, 2, 3] K32 K64 N16 = Return ?sealed"
    by (simp add: SealWholeAttachment_eq [OF test_prims_sizes_ok] PlaintextChunkLength_def)
  have c: "concat [take 10 ?sealed, drop 10 ?sealed] = ?sealed" by simp
  have l: "length ?sealed = 88"
    by (simp add: length_packet_bytes [OF test_prims_sizes_ok])
  from streaming_equivalence [of test_prims K32 K64 N16 "([1] # [] # [2, 3] # [])" "take 32 K64" "[]"
      "[1, 2, 3]" "[take 10 ?sealed, drop 10 ?sealed]"]
    test_prims_sizes_ok test_prims_box_ok test_prims_keypair [of K64] s
  have "Encoder_feed test_prims (NewAttachmentEncoder K32 K64 N16) ([1] # [] # [2, 3] # []) []
          = Return ?sealed
        \<and> Decoder_feed test_prims (NewAttachmentDecoder K32 (take 32 K64) N16)
               [take 10 ?sealed, drop 10 ?sealed] [] = Return ([1, 2, 3], None)"
    by (simp only: c) simp
  with s c l test_prims_sizes_ok test_prims_box_ok test_prims_keypair [of K64]
  show ?thesis by (intro conjI exI [of _ ?sealed]) simp_all
qed

section \<open>The decoder's error latch\<close>

lemma openOnePacket_error:
  "openOnePacket P d n = Return (plaintext, Some e, d') \<Longrightarrow> plaintext = [] \<and> d' = d"
  by (auto simp: openOnePacket_def go_bind_def go_slice_def
      split: if_splits go.splits prod.splits option.splits)

lemma Decoder_Write_error:
  assumes "Decoder_Write P d c = Return (out, Some e, d')"
  shows "out = [] \<and> d_err d' = Some e"
proof (cases "d_err d")
  case None
  with assms have "Decoder_Write_loop P (d\<lparr>d_buf := d_buf d @ c\<rparr>) [] = Return (out, Some e, d')"
    by (simp add: Decoder_Write_def)
  from Decoder_Write_loop_result [OF this] show ?thesis by simp
next
  case (Some e0)
  with assms show ?thesis by (auto simp add: Decoder_Write_def)
qed

lemma Decoder_Finish_error:
  assumes "Decoder_Finish P d = Return (out, Some e, d')"
  shows "out = [] \<and> d_err d' = Some e"
proof (cases "d_err d")
  case None
  show ?thesis
  proof (cases "openOnePacket P d (length (d_buf d))")
    case (Panic s)
    with assms None show ?thesis
      by (simp add: Decoder_Finish_def split: if_splits)
  next
    case (Return x)
    obtain plaintext err d1 where x: "x = (plaintext, err, d1)" by (cases x)
    from assms None Return x have "err = Some e" "out = plaintext" "d' = d1\<lparr>d_err := err\<rparr>"
      by (auto simp add: Decoder_Finish_def split: if_splits)
    with Return x openOnePacket_error [of P d "length (d_buf d)" plaintext e d1]
    show ?thesis by simp
  qed
next
  case (Some e0)
  with assms show ?thesis by (auto simp add: Decoder_Finish_def)
qed

lemma Decoder_call_error:
  "Decoder_call P d call = Return (out, Some e, d') \<Longrightarrow> out = [] \<and> d_err d' = Some e"
  by (cases call) (simp_all add: Decoder_Write_error Decoder_Finish_error)

lemma Decoder_call_sticky:
  "d_err d = Some e \<Longrightarrow> Decoder_call P d call = Return ([], Some e, d)"
  by (cases call) (simp_all add: Decoder_Write_def Decoder_Finish_def)

lemma Decoder_calls_sticky:
  "d_err d = Some e \<Longrightarrow> Decoder_calls P d calls = Return (replicate (length calls) ([], Some e))"
  by (induction calls) (simp_all add: Decoder_call_sticky)

lemma Decoder_Write_discards:
  assumes "sizes_ok P" and "box_ok P" and "keypair P signKey verifyKey"
    and "length chunk = PlaintextChunkLength"
    and "sealPacket P chunk 0 encKey signKey nonce = Return good"
    and "length bad = PacketLength"
    and "openPacket P bad 1 encKey verifyKey nonce = Return ([], Some e)"
  shows "\<exists>d'. Decoder_Write P (NewAttachmentDecoder encKey verifyKey nonce) (good @ bad)
               = Return ([], Some e, d')
              \<and> d_chunkNum d' = 1 \<and> d_buf d' = bad"
proof -
  define d0 where "d0 = \<lparr> d_encKey = encKey, d_verifyKey = verifyKey, d_nonce = nonce,
               d_buf = good @ bad, d_chunkNum = 0, d_err = None \<rparr>"
  define d1 where "d1 = d0\<lparr>d_buf := bad, d_chunkNum := 1\<rparr>"
  have "length chunk + 80 \<le> MaxUint32" using assms(4) CH_small by simp
  with assms(1,5) have good: "good = packet_bytes P chunk 0 encKey signKey nonce"
    by (simp add: sealPacket_eq)
  have o1: "openOnePacket P d0 (length chunk + 85) = Return (chunk, None, d1)"
    using openOnePacket_packet_bytes [OF assms(1,2), of signKey d0 chunk bad] assms(3,4)
    by (simp add: good d0_def d1_def)
  have lg: "length good = PacketLength"
    by (simp add: good length_packet_bytes [OF assms(1)] assms(4) PacketLength_eq)
  have f1: "d_buf d1 = bad" "d_chunkNum d1 = 1" "d_encKey d1 = encKey"
    "d_verifyKey d1 = verifyKey" "d_nonce d1 = nonce"
    by (simp_all add: d1_def d0_def)
  have o2: "openOnePacket P d1 PacketLength = Return ([], Some e, d1)"
    using assms(6,7) by (simp add: openOnePacket_def go_slice_def f1)
  have l2: "Decoder_Write_loop P d1 chunk = Return ([], Some e, d1\<lparr>d_err := Some e\<rparr>)"
    using assms(6) by (subst Decoder_Write_loop.simps) (simp add: o2 f1)
  have e1: "d1\<lparr>d_err := None\<rparr> = d1" by (simp add: d1_def d0_def)
  have o1': "openOnePacket P d0 PacketLength = Return (chunk, None, d1)"
    using o1 by (simp only: assms(4) PacketLength_eq)
  have "PacketLength \<le> length (d_buf d0)" using lg by (simp add: d0_def)
  then have "Decoder_Write_loop P d0 [] = Return ([], Some e, d1\<lparr>d_err := Some e\<rparr>)"
    by (subst Decoder_Write_loop.simps) (simp add: o1' e1 l2)
  then show ?thesis
    by (simp add: Decoder_Write_def NewAttachmentDecoder_def d0_def f1)
qed


text \<open>
  Claim C5 (sticky error). For every decoder: when a \<open>Write\<close> or \<open>Finish\<close> call returns an
  error, it returns no bytes, and every later \<open>Write\<close> or \<open>Finish\<close> call returns that same error
  and no bytes. In particular a \<open>Write\<close> whose input holds a full packet that opens and then a
  full packet that fails returns the error and none of the first packet's plaintext, although
  the first packet was opened (the chunk number has advanced).
\<close>

theorem sticky_error:
  "(Decoder_call P d call = Return (out, Some e, d') \<longrightarrow>
      out = [] \<and> d_err d' = Some e
      \<and> Decoder_calls P d' calls = Return (replicate (length calls) ([], Some e)))
   \<and> (sizes_ok P \<longrightarrow> box_ok P \<longrightarrow> keypair P signKey verifyKey \<longrightarrow>
      length chunk = PlaintextChunkLength \<longrightarrow>
      sealPacket P chunk 0 encKey signKey nonce = Return good \<longrightarrow>
      length bad = PacketLength \<longrightarrow>
      openPacket P bad 1 encKey verifyKey nonce = Return ([], Some e2) \<longrightarrow>
      (\<exists>d2. Decoder_Write P (NewAttachmentDecoder encKey verifyKey nonce) (good @ bad)
               = Return ([], Some e2, d2)
            \<and> d_chunkNum d2 = 1))"
proof (intro conjI impI)
  assume a: "Decoder_call P d call = Return (out, Some e, d')"
  from Decoder_call_error [OF a] show "out = []" and "d_err d' = Some e" by simp_all
  then show "Decoder_calls P d' calls = Return (replicate (length calls) ([], Some e))"
    by (simp add: Decoder_calls_sticky)
next
  assume "sizes_ok P" and "box_ok P" and "keypair P signKey verifyKey"
    and "length chunk = PlaintextChunkLength"
    and "sealPacket P chunk 0 encKey signKey nonce = Return good"
    and "length bad = PacketLength"
    and "openPacket P bad 1 encKey verifyKey nonce = Return ([], Some e2)"
  from Decoder_Write_discards [OF this]
  show "\<exists>d2. Decoder_Write P (NewAttachmentDecoder encKey verifyKey nonce) (good @ bad)
               = Return ([], Some e2, d2)
            \<and> d_chunkNum d2 = 1"
    by blast
qed

lemma openPacket_zeros:
  "openPacket P (replicate PacketLength 0) chunkNum encKey verifyKey nonce
   = Return ([], Some (NewAttachmentError WrongMessagePackFormat
       ''expected tag byte 0xc6, found %#x'' [0]))"
proof -
  have l: "5 \<le> length (replicate PacketLength (0 :: byte))"
    by (simp add: PacketLength_eq)
  have "0 < PacketLength" by (simp add: PacketLength_eq)
  then have z: "replicate PacketLength (0 :: byte) ! 0 = 0" by simp
  from unpackCiphertext_long [OF l]
  have "unpackCiphertext (replicate PacketLength 0)
        = Return ([], Some (NewAttachmentError WrongMessagePackFormat
            ''expected tag byte 0xc6, found %#x'' [0]))"
    by (auto simp add: z Bin32Tag_def)
  then show ?thesis by (simp add: openPacket_def)
qed

theorem sticky_error_witness:
  "(\<exists>e d'. Decoder_call test_prims (NewAttachmentDecoder K32 (take 32 K64) N16) CallFinish
             = Return ([], Some e, d')
          \<and> Type e = ShortMessagePackObject
          \<and> Decoder_calls test_prims d' [CallWrite [1, 2, 3], CallFinish]
              = Return [([], Some e), ([], Some e)])
   \<and> (\<exists>good e2 d2. sizes_ok test_prims \<and> box_ok test_prims
          \<and> keypair test_prims K64 (take 32 K64)
          \<and> length (replicate PlaintextChunkLength (0 :: byte)) = PlaintextChunkLength
          \<and> sealPacket test_prims (replicate PlaintextChunkLength 0) 0 K32 K64 N16 = Return good
          \<and> length (replicate PacketLength (0 :: byte)) = PacketLength
          \<and> openPacket test_prims (replicate PacketLength 0) 1 K32 (take 32 K64) N16
              = Return ([], Some e2)
          \<and> Decoder_Write test_prims (NewAttachmentDecoder K32 (take 32 K64) N16)
                (good @ replicate PacketLength 0) = Return ([], Some e2, d2)
          \<and> d_chunkNum d2 = 1)"
proof
  let ?d = "NewAttachmentDecoder K32 (take 32 K64) N16"
  let ?e = "NewAttachmentError ShortMessagePackObject
              ''can't unpack bin object less than length 5, found %d'' [0]"
  have o: "openPacket test_prims [] 0 K32 (take 32 K64) N16 = Return ([], Some ?e)"
    by (simp add: openPacket_def unpackCiphertext_short)
  have f: "Decoder_call test_prims ?d CallFinish = Return ([], Some ?e, ?d\<lparr>d_err := Some ?e\<rparr>)"
    using o
    by (simp add: Decoder_Finish_def NewAttachmentDecoder_def openOnePacket_def go_slice_def
        PacketLength_eq)
  from sticky_error [of test_prims ?d CallFinish "[]" ?e "?d\<lparr>d_err := Some ?e\<rparr>"
      "[CallWrite [1, 2, 3], CallFinish]"] f
  have "Decoder_calls test_prims (?d\<lparr>d_err := Some ?e\<rparr>) [CallWrite [1, 2, 3], CallFinish]
        = Return [([], Some ?e), ([], Some ?e)]"
    by simp
  with f show "\<exists>e d'. Decoder_call test_prims ?d CallFinish = Return ([], Some e, d')
          \<and> Type e = ShortMessagePackObject
          \<and> Decoder_calls test_prims d' [CallWrite [1, 2, 3], CallFinish]
              = Return [([], Some e), ([], Some e)]"
    by (intro exI [of _ ?e] exI [of _ "?d\<lparr>d_err := Some ?e\<rparr>"])
      (simp add: NewAttachmentError_def)
next
  let ?chunk = "replicate PlaintextChunkLength (0 :: byte)"
  let ?bad = "replicate PacketLength (0 :: byte)"
  let ?good = "packet_bytes test_prims ?chunk 0 K32 K64 N16"
  let ?e2 = "NewAttachmentError WrongMessagePackFormat ''expected tag byte 0xc6, found %#x'' [0]"
  have s: "sealPacket test_prims ?chunk 0 K32 K64 N16 = Return ?good"
    using test_prims_sizes_ok by (rule sealPacket_eq) (simp add: CH_small)
  have c: "length ?chunk = PlaintextChunkLength" and b: "length ?bad = PacketLength"
    by simp_all
  have o: "openPacket test_prims ?bad 1 K32 (take 32 K64) N16 = Return ([], Some ?e2)"
    by (rule openPacket_zeros)
  from sticky_error [of test_prims _ _ _ _ _ _ K64 "take 32 K64" ?chunk K32 N16 ?good ?bad ?e2]
    test_prims_sizes_ok test_prims_box_ok test_prims_keypair [of K64] s c b o
  obtain d2 where "Decoder_Write test_prims (NewAttachmentDecoder K32 (take 32 K64) N16)
                     (?good @ ?bad) = Return ([], Some ?e2, d2)" and "d_chunkNum d2 = 1"
    by blast
  with test_prims_sizes_ok test_prims_box_ok test_prims_keypair [of K64] s c b o
  show "\<exists>good e2 d2. sizes_ok test_prims \<and> box_ok test_prims
          \<and> keypair test_prims K64 (take 32 K64)
          \<and> length (replicate PlaintextChunkLength (0 :: byte)) = PlaintextChunkLength
          \<and> sealPacket test_prims (replicate PlaintextChunkLength 0) 0 K32 K64 N16 = Return good
          \<and> length (replicate PacketLength (0 :: byte)) = PacketLength
          \<and> openPacket test_prims (replicate PacketLength 0) 1 K32 (take 32 K64) N16
              = Return ([], Some e2)
          \<and> Decoder_Write test_prims (NewAttachmentDecoder K32 (take 32 K64) N16)
                (good @ replicate PacketLength 0) = Return ([], Some e2, d2)
          \<and> d_chunkNum d2 = 1"
    by blast
qed


section \<open>The encoder's buffer\<close>

lemma Encoder_Write_loop_states_bound:
  "s \<in> set (Encoder_Write_loop_states P e) \<Longrightarrow> length (e_buf s) \<le> length (e_buf e)"
proof (induction P e rule: Encoder_Write_loop_states.induct)
  case (1 P e)
  show ?case
  proof (cases "PlaintextChunkLength \<le> length (e_buf e)")
    case False
    with "1.prems" show ?thesis
      by (subst (asm) Encoder_Write_loop_states.simps) simp
  next
    case True
    show ?thesis
    proof (cases "sealOnePacket P e PlaintextChunkLength")
      case (Panic m)
      with True "1.prems" show ?thesis
        by (subst (asm) Encoder_Write_loop_states.simps) simp
    next
      case (Return r)
      from True Return "1.prems"
      consider "s = e" | "s \<in> set (Encoder_Write_loop_states P (snd r))"
        by (subst (asm) Encoder_Write_loop_states.simps) auto
      then show ?thesis
      proof cases
        case 1
        then show ?thesis by simp
      next
        case 2
        from "1.IH" [OF True Return 2]
        have "length (e_buf s) \<le> length (e_buf (snd r))" .
        moreover have "e_buf (snd r) = drop PlaintextChunkLength (e_buf e)"
          using sealOnePacket_buf [of P e PlaintextChunkLength "fst r" "snd r"] Return by simp
        ultimately show ?thesis by simp
      qed
    qed
  qed
qed

lemma Encoder_Write_loop_states_last:
  "Encoder_Write_loop P e acc = Return (out, e') \<Longrightarrow> last (Encoder_Write_loop_states P e) = e'"
proof (induction P e acc rule: Encoder_Write_loop.induct)
  case (1 P e acc)
  show ?case
  proof (cases "PlaintextChunkLength \<le> length (e_buf e)")
    case False
    with "1.prems" show ?thesis
      by (subst (asm) Encoder_Write_loop.simps, subst Encoder_Write_loop_states.simps) simp
  next
    case True
    show ?thesis
    proof (cases "sealOnePacket P e PlaintextChunkLength")
      case (Panic m)
      with True "1.prems" show ?thesis
        by (subst (asm) Encoder_Write_loop.simps) simp
    next
      case (Return x)
      obtain packet e1 where x: "x = (packet, e1)" by (cases x)
      from True Return x "1.prems"
      have "Encoder_Write_loop P e1 (acc @ packet) = Return (out, e')"
        by (subst (asm) Encoder_Write_loop.simps) simp
      from "1.IH" [OF True Return x [symmetric] this]
      have l: "last (Encoder_Write_loop_states P e1) = e'" .
      have ne: "Encoder_Write_loop_states P e1 \<noteq> []"
        by (subst Encoder_Write_loop_states.simps) simp
      from True Return x l ne show ?thesis
        by (subst Encoder_Write_loop_states.simps) simp
    qed
  qed
qed

lemma Encoder_writes_small:
  "length (e_buf e) < PlaintextChunkLength \<Longrightarrow> Encoder_writes P e ps = Return e' \<Longrightarrow>
   length (e_buf e') < PlaintextChunkLength"
proof (induction ps arbitrary: e)
  case Nil
  then show ?case by simp
next
  case (Cons p ps)
  show ?case
  proof (cases "Encoder_Write P e p")
    case (Panic m)
    with Cons.prems show ?thesis by simp
  next
    case (Return x)
    obtain out e1 where x: "x = (out, e1)" by (cases x)
    from Return x have "length (e_buf e1) < PlaintextChunkLength"
      by (auto dest: Encoder_Write_buf_small)
    moreover from Cons.prems(2) Return x have "Encoder_writes P e1 ps = Return e'" by simp
    ultimately show ?thesis by (rule Cons.IH)
  qed
qed

lemma Encoder_writes_total:
  "sizes_ok P \<Longrightarrow> \<exists>e'. Encoder_writes P e ps = Return e'"
  by (induction ps arbitrary: e) (simp_all add: Encoder_Write_eq)


text \<open>
  Claim C7 (encoder buffer). For an encoder reached from a fresh one by any sequence of
  \<open>Write\<close> calls: its buffer holds fewer than \<open>2^20\<close> bytes, so \<open>Finish\<close> does not take its
  panic branch; at every evaluation of the loop condition of a further \<open>Write\<close> the buffer holds
  at most \<open>2^20 - 1\<close> bytes plus that call's input, and when that call returns the buffer again
  holds fewer than \<open>2^20\<close> bytes. With primitives of the guaranteed sizes every such \<open>Write\<close>
  and \<open>Finish\<close> returns.
\<close>

theorem buffer_bound:
  "(Encoder_writes P (NewAttachmentEncoder encKey signKey nonce) inputs = Return e \<longrightarrow>
      length (e_buf e) < 2 ^ 20
      \<and> Encoder_Finish P e \<noteq> Panic ''encoder buffer has more bytes than expected''
      \<and> (\<forall>s \<in> set (Encoder_Write_states P e plaintext).
            length (e_buf s) \<le> 2 ^ 20 - 1 + length plaintext)
      \<and> (Encoder_Write P e plaintext = Return (out, e') \<longrightarrow>
            last (Encoder_Write_states P e plaintext) = e' \<and> length (e_buf e') < 2 ^ 20)
      \<and> (sizes_ok P \<longrightarrow>
            (\<exists>out e'. Encoder_Write P e plaintext = Return (out, e'))
            \<and> (\<exists>packet e'. Encoder_Finish P e = Return (packet, e'))))
   \<and> (sizes_ok P \<longrightarrow>
        (\<exists>e. Encoder_writes P (NewAttachmentEncoder encKey signKey nonce) inputs = Return e))"
proof (intro conjI impI ballI)
  assume r: "Encoder_writes P (NewAttachmentEncoder encKey signKey nonce) inputs = Return e"
  have "length (e_buf (NewAttachmentEncoder encKey signKey nonce)) < PlaintextChunkLength"
    using CH_pos by (simp add: NewAttachmentEncoder_def)
  from Encoder_writes_small [OF this r]
  have small: "length (e_buf e) < PlaintextChunkLength" .
  then show b: "length (e_buf e) < 2 ^ 20"
    by (simp add: PlaintextChunkLength_def)
  show "Encoder_Finish P e \<noteq> Panic ''encoder buffer has more bytes than expected''"
  proof (cases "sealOnePacket P e (length (e_buf e))")
    case (Panic m)
    then have "m = ''ciphertext chunk is too long''"
      by (auto simp add: sealOnePacket_def sealPacket_def packCiphertext_def go_slice_def
          Let_def split: if_splits)
    with small Panic show ?thesis by (simp add: Encoder_Finish_def)
  next
    case (Return x)
    with small show ?thesis by (simp add: Encoder_Finish_def)
  qed
  show "length (e_buf s) \<le> 2 ^ 20 - 1 + length plaintext"
    if "s \<in> set (Encoder_Write_states P e plaintext)" for s
    using Encoder_Write_loop_states_bound [OF that [unfolded Encoder_Write_states_def]] b
    by simp
  show "last (Encoder_Write_states P e plaintext) = e'"
    if "Encoder_Write P e plaintext = Return (out, e')"
    using that unfolding Encoder_Write_def Encoder_Write_states_def
    by (rule Encoder_Write_loop_states_last)
  show "length (e_buf e') < 2 ^ 20"
    if "Encoder_Write P e plaintext = Return (out, e')"
    using Encoder_Write_buf_small [OF that] by (simp add: PlaintextChunkLength_def)
  show "\<exists>out e'. Encoder_Write P e plaintext = Return (out, e')" if "sizes_ok P"
    by (simp add: Encoder_Write_eq [OF that])
  show "\<exists>packet e'. Encoder_Finish P e = Return (packet, e')" if "sizes_ok P"
    by (simp add: Encoder_Finish_eq [OF that small])
next
  assume "sizes_ok P"
  then show "\<exists>e. Encoder_writes P (NewAttachmentEncoder encKey signKey nonce) inputs = Return e"
    by (rule Encoder_writes_total)
qed


theorem buffer_bound_witness:
  "sizes_ok test_prims
   \<and> Encoder_writes test_prims (NewAttachmentEncoder K32 K64 N16) ([1, 2, 3] # [])
       = Return \<lparr> e_encKey = K32, e_signKey = K64, e_nonce = N16, e_buf = [1, 2, 3],
                  e_chunkNum = 0 \<rparr>
   \<and> Encoder_Write test_prims
         \<lparr> e_encKey = K32, e_signKey = K64, e_nonce = N16, e_buf = [1, 2, 3], e_chunkNum = 0 \<rparr>
         [4, 5]
       = Return ([], \<lparr> e_encKey = K32, e_signKey = K64, e_nonce = N16,
                        e_buf = [1, 2, 3, 4, 5], e_chunkNum = 0 \<rparr>)
   \<and> Encoder_Finish test_prims
         \<lparr> e_encKey = K32, e_signKey = K64, e_nonce = N16, e_buf = [1, 2, 3], e_chunkNum = 0 \<rparr>
       \<noteq> Panic ''encoder buffer has more bytes than expected''
   \<and> Encoder_Write_states test_prims
         \<lparr> e_encKey = K32, e_signKey = K64, e_nonce = N16, e_buf = [1, 2, 3], e_chunkNum = 0 \<rparr>
         [4, 5]
       = [\<lparr> e_encKey = K32, e_signKey = K64, e_nonce = N16, e_buf = [1, 2, 3, 4, 5],
            e_chunkNum = 0 \<rparr>]
   \<and> length (e_buf \<lparr> e_encKey = K32, e_signKey = K64, e_nonce = N16,
                       e_buf = [1, 2, 3, 4, 5 :: byte], e_chunkNum = 0 :: 64 word \<rparr>)
       \<le> 2 ^ 20 - 1 + 2"
proof -
  define E where "E = \<lparr> e_encKey = K32, e_signKey = K64, e_nonce = N16, e_buf = [1, 2, 3 :: byte],
                         e_chunkNum = 0 \<rparr>"
  define E' where "E' = \<lparr> e_encKey = K32, e_signKey = K64, e_nonce = N16,
                           e_buf = [1, 2, 3, 4, 5 :: byte], e_chunkNum = 0 \<rparr>"
  have w1: "Encoder_writes test_prims (NewAttachmentEncoder K32 K64 N16) ([1, 2, 3] # []) = Return E"
    by (simp add: Encoder_Write_eq [OF test_prims_sizes_ok] NewAttachmentEncoder_def
        PlaintextChunkLength_def E_def)
  have w2: "Encoder_Write test_prims E [4, 5] = Return ([], E')"
    by (simp add: Encoder_Write_eq [OF test_prims_sizes_ok] PlaintextChunkLength_def
        E_def E'_def)
  have st: "Encoder_Write_states test_prims E [4, 5] = [E']"
    unfolding Encoder_Write_states_def
    by (subst Encoder_Write_loop_states.simps)
      (simp add: PlaintextChunkLength_def E_def E'_def)
  from buffer_bound [of test_prims K32 K64 N16 "[1, 2, 3] # []" E "[4, 5]" "[]" E'] w1 w2
    test_prims_sizes_ok
  show ?thesis
    unfolding E_def [symmetric] E'_def [symmetric] by (simp add: st)
qed

end
